theory Spec2Isabelle
  imports Main "HOL-Library.Multiset"
begin

section \<open>Route path templates of \<open>lib/route.js\<close>\<close>

text \<open>
  The route module validates a path template with two regular expressions, compiles it
  into a regular expression, a list of parameter names and a fingerprint
  (\<open>_generateRegex\<close>), and matches request paths against the compiled expression
  (\<open>match\<close>, \<open>test\<close>).  The regular expressions are run by the JavaScript engine, so
  the development starts with the backtracking matcher of ECMAScript 5.1, section 15.10.2,
  for the constructs the module uses.

  Strings are lists of 8-bit code units: templates and request paths are the characters of
  the request line.  Decoded parameter values are sequences of UTF-16 code units, since
  \<open>decodeURIComponent\<close> produces code units above \<open>0xFF\<close>.
\<close>

subsection \<open>Regular expressions\<close>

text \<open>
  \<open>Cls neg A\<close> is a character class with the ranges \<open>A\<close>, inverted when \<open>neg\<close> holds.
  \<open>Rep mn mx r\<close> is the greedy quantifier \<open>r{mn,mx}\<close>, \<open>mx = None\<close> meaning no upper bound.
  \<open>Group r\<close> is a capturing group; a non-capturing group \<open>(?:r)\<close> is \<open>r\<close> itself.
  \<open>Bol\<close> and \<open>Eol\<close> are \<open>^\<close> and \<open>$\<close> (no multiline flag is used).
\<close>

datatype regex =
    Eps
  | Chr char
  | Cls bool "(char \<times> char) list"
  | Bol
  | Eol
  | Seq regex regex
  | Alt regex regex
  | Group regex
  | Rep nat "nat option" regex

abbreviation Star :: "regex \<Rightarrow> regex" where
  "Star r \<equiv> Rep 0 None r"

abbreviation Plus :: "regex \<Rightarrow> regex" where
  "Plus r \<equiv> Rep 1 None r"

abbreviation Opt :: "regex \<Rightarrow> regex" where
  "Opt r \<equiv> Rep 0 (Some 1) r"

abbreviation Times :: "nat \<Rightarrow> regex \<Rightarrow> regex" where
  "Times n r \<equiv> Rep n (Some n) r"

text \<open>The number of capturing groups of an expression (\<open>NcapturingParens\<close>).\<close>

fun ngroups :: "regex \<Rightarrow> nat" where
  "ngroups (Seq a b) = ngroups a + ngroups b"
| "ngroups (Alt a b) = ngroups a + ngroups b"
| "ngroups (Group a) = Suc (ngroups a)"
| "ngroups (Rep mn mx a) = ngroups a"
| "ngroups _ = 0"

fun rsize :: "regex \<Rightarrow> nat" where
  "rsize (Seq a b) = Suc (rsize a + rsize b)"
| "rsize (Alt a b) = Suc (rsize a + rsize b)"
| "rsize (Group a) = Suc (rsize a)"
| "rsize (Rep mn mx a) = Suc (rsize a)"
| "rsize _ = 0"

fun rmin :: "regex \<Rightarrow> nat" where
  "rmin (Rep mn mx a) = mn"
| "rmin _ = 0"

text \<open>
  \<open>Canonicalize\<close> (15.10.2.8), on code unit values: with the \<open>i\<close> flag a character is
  compared through its upper-case form.  Within 8-bit code units the letters with an upper-case form in the same
  range are \<open>a-z\<close> and \<open>0xE0-0xFE\<close> without \<open>0xF7\<close>; \<open>0xB5\<close> and \<open>0xFF\<close> map to code units
  no other 8-bit character maps to, and \<open>0xDF\<close> has no single-character upper-case form.
\<close>

definition canonicalize :: "bool \<Rightarrow> nat \<Rightarrow> nat" where
  "canonicalize ic n =
     (if ic \<and> ((97 \<le> n \<and> n \<le> 122) \<or> (224 \<le> n \<and> n \<le> 254 \<and> n \<noteq> 247))
      then n - 32 else n)"

definition in_range :: "char \<Rightarrow> char \<times> char \<Rightarrow> bool" where
  "in_range c r = ((of_char (fst r) :: nat) \<le> of_char c \<and> (of_char c :: nat) \<le> of_char (snd r))"

text \<open>
  \<open>CharacterSetMatcher\<close>: the character belongs to the set when some member of the set has
  the same canonical form; without the \<open>i\<close> flag that is membership in one of the ranges.
\<close>

definition class_member :: "bool \<Rightarrow> (char \<times> char) list \<Rightarrow> char \<Rightarrow> bool" where
  "class_member ic A ch =
     (if ic then
        (\<exists>r \<in> set A. \<exists>a \<in> set [of_char (fst r) ..< Suc (of_char (snd r))].
            canonicalize ic a = canonicalize ic (of_char ch))
      else (\<exists>r \<in> set A. in_range ch r))"

text \<open>
  A matcher state is the end index, the input that remains after it, and the captures
  (entry \<open>k\<close> holds group \<open>k + 1\<close>; \<open>None\<close> is \<open>undefined\<close>).
\<close>

type_synonym mstate = "nat \<times> string \<times> string option list"

fun clear :: "nat \<Rightarrow> nat \<Rightarrow> string option list \<Rightarrow> string option list" where
  "clear k 0 cap = cap"
| "clear k (Suc n) cap = clear (Suc k) n (cap[k := None])"

text \<open>
  \<open>run ic r k x\<close> lists the states in which \<open>r\<close> can end when started in \<open>x\<close>, in the order
  in which the backtracking matcher tries them; \<open>k\<close> is the number of capturing groups to
  the left of \<open>r\<close> in the pattern.  The continuation of the standard's matchers is the rest
  of the list: the first state whose continuation succeeds is taken.

  The quantifier follows \<open>RepeatMatcher\<close>: the captures of the groups inside the atom are
  reset before each iteration, an iteration that consumes nothing once the minimum is
  reached is dropped, and the greedy quantifier tries another iteration before it stops.
\<close>

function (sequential) run :: "bool \<Rightarrow> regex \<Rightarrow> nat \<Rightarrow> mstate \<Rightarrow> mstate list" where
  "run ic Eps k x = [x]"
| "run ic (Chr c) k (e, inp, cap) =
     (case inp of
        [] \<Rightarrow> []
      | ch # rest \<Rightarrow>
          if canonicalize ic (of_char c) = canonicalize ic (of_char ch)
          then [(Suc e, rest, cap)] else [])"
| "run ic (Cls neg A) k (e, inp, cap) =
     (case inp of
        [] \<Rightarrow> []
      | ch # rest \<Rightarrow>
          if class_member ic A ch \<noteq> neg then [(Suc e, rest, cap)] else [])"
| "run ic Bol k (e, inp, cap) = (if e = 0 then [(e, inp, cap)] else [])"
| "run ic Eol k (e, inp, cap) = (if inp = [] then [(e, inp, cap)] else [])"
| "run ic (Seq a b) k x = concat (map (run ic b (k + ngroups a)) (run ic a k x))"
| "run ic (Alt a b) k x = run ic a k x @ run ic b (k + ngroups a) x"
| "run ic (Group a) k (e, inp, cap) =
     map (\<lambda>(e', inp', cap'). (e', inp', cap'[k := Some (take (e' - e) inp)]))
       (run ic a (Suc k) (e, inp, cap))"
| "run ic (Rep mn mx a) k (e, inp, cap) =
     (if mx = Some 0 then [(e, inp, cap)]
      else
        let again =
          concat (map (\<lambda>(e', inp', cap').
                    if mn = 0 \<and> length inp \<le> length inp' then []
                    else run ic (Rep (mn - 1) (map_option (\<lambda>m. m - 1) mx) a) k (e', inp', cap'))
                  (run ic a k (e, inp, clear k (ngroups a) cap)))
        in if mn \<noteq> 0 then again else again @ [(e, inp, cap)])"
  by pat_completeness auto
termination
  by (relation "inv_image (less_than <*lex*> less_than <*lex*> less_than)
        (\<lambda>(ic, r, k, e, inp, cap). (rsize r, rmin r, length inp))") auto

text \<open>
  \<open>RegExp.prototype.exec\<close> for an expression without the global flag: the match is tried
  at every start index from 0 on, and the first start index with a match gives the result
  array: the matched substring followed by the captures.
\<close>

fun exec_at :: "bool \<Rightarrow> regex \<Rightarrow> nat \<Rightarrow> string \<Rightarrow> string option list option" where
  "exec_at ic r i inp =
     (case run ic r 0 (i, inp, replicate (ngroups r) None) of
        (e, rest, cap) # _ \<Rightarrow> Some (Some (take (e - i) inp) # cap)
      | [] \<Rightarrow> (case inp of [] \<Rightarrow> None | _ # inp' \<Rightarrow> exec_at ic r (Suc i) inp'))"

record regexp =
  source :: regex
  ignoreCase :: bool

definition exec :: "regexp \<Rightarrow> string \<Rightarrow> string option list option" where
  "exec re s = exec_at (ignoreCase re) (source re) 0 s"


definition regexp_of :: "regex \<Rightarrow> regexp" where
  "regexp_of r = \<lparr>source = r, ignoreCase = False\<rparr>"

subsection \<open>Strings, objects and \<open>Utils\<close>\<close>

text \<open>\<open>String.prototype.split\<close> with a one-character separator.\<close>

fun split :: "char \<Rightarrow> string \<Rightarrow> string list" where
  "split sep [] = [[]]"
| "split sep (c # cs) =
     (if c = sep then [] # split sep cs
      else (c # hd (split sep cs)) # tl (split sep cs))"

text \<open>
  \<open>String.prototype.toLowerCase\<close> on 8-bit code units: \<open>A-Z\<close> and \<open>0xC0-0xDE\<close> without
  \<open>0xD7\<close> have a lower-case form, 32 above.
\<close>

definition lower_char :: "char \<Rightarrow> char" where
  "lower_char c =
     (let n = (of_char c :: nat)
      in if (65 \<le> n \<and> n \<le> 90) \<or> (192 \<le> n \<and> n \<le> 222 \<and> n \<noteq> 215)
         then char_of (n + 32) else c)"

definition toLowerCase :: "string \<Rightarrow> string" where
  "toLowerCase s = map lower_char s"

definition is_digit :: "char \<Rightarrow> bool" where
  "is_digit c = in_range c (CHR ''0'', CHR ''9'')"

definition digit_val :: "char \<Rightarrow> nat" where
  "digit_val c = of_char c - 48"

definition decimal :: "string \<Rightarrow> nat" where
  "decimal s = foldl (\<lambda>n c. 10 * n + digit_val c) 0 s"

text \<open>
  \<open>parseInt(s, 10)\<close> for a string without leading white space or sign: the value of the
  leading decimal digits, \<open>None\<close> (NaN) when there is none.  The result is a natural number;
  JavaScript's number is the same value below \<open>2^53\<close>.
\<close>

definition parseInt :: "string \<Rightarrow> nat option" where
  "parseInt s =
     (if takeWhile is_digit s = [] then None else Some (decimal (takeWhile is_digit s)))"

text \<open>
  An object is the list of its own properties in creation order.  \<open>Object.keys\<close> lists the
  keys that are array indices first, in ascending numeric order, and the other keys after
  them in creation order (the order of V8, later the order of the standard's
  \<open>OrdinaryOwnPropertyKeys\<close>).
\<close>

type_synonym 'v obj = "(string \<times> 'v) list"

fun obj_set :: "string \<Rightarrow> 'v \<Rightarrow> 'v obj \<Rightarrow> 'v obj" where
  "obj_set k v [] = [(k, v)]"
| "obj_set k v ((k', v') # ps) =
     (if k = k' then (k', v) # ps else (k', v') # obj_set k v ps)"

definition array_index :: "string \<Rightarrow> nat option" where
  "array_index k =
     (if k \<noteq> [] \<and> list_all is_digit k \<and> (k = ''0'' \<or> hd k \<noteq> CHR ''0'')
         \<and> decimal k < 4294967295
      then Some (decimal k) else None)"

definition Object_keys :: "'v obj \<Rightarrow> string list" where
  "Object_keys ps =
     map snd (sort_key fst
        (List.map_filter (\<lambda>k. map_option (\<lambda>i. (i, k)) (array_index k)) (map fst ps)))
     @ filter (\<lambda>k. array_index k = None) (map fst ps)"

text \<open>
  A property read goes through the prototype chain: an object created by \<open>{}\<close> inherits the
  properties of \<open>Object.prototype\<close>, all of them truthy.
\<close>

definition Object_prototype :: "string list" where
  "Object_prototype =
     [''constructor'', ''toString'', ''toLocaleString'', ''valueOf'', ''hasOwnProperty'',
      ''isPrototypeOf'', ''propertyIsEnumerable'', ''__proto__'', ''__defineGetter__'',
      ''__defineSetter__'', ''__lookupGetter__'', ''__lookupSetter__'']"

definition obj_truthy :: "bool obj \<Rightarrow> string \<Rightarrow> bool" where
  "obj_truthy ps k =
     (case map_of ps k of Some v \<Rightarrow> v | None \<Rightarrow> k \<in> set Object_prototype)"

text \<open>A capture used as a property key or as a condition: \<open>ToString\<close> and \<open>ToBoolean\<close>.\<close>

definition ToString :: "string option \<Rightarrow> string" where
  "ToString v = (case v of None \<Rightarrow> ''undefined'' | Some s \<Rightarrow> s)"

definition ToBoolean :: "string option \<Rightarrow> bool" where
  "ToBoolean v = (case v of None \<Rightarrow> False | Some s \<Rightarrow> s \<noteq> [])"

datatype error = AssertionError string | URIError

text \<open>
  Modelled from the spec: \<open>Utils.escapeRegex\<close> is not in \<open>lib/route.js\<close>.  The spec says of a
  literal segment that every character is escaped for safe inclusion in a pattern, so that
  metacharacters are literal text: the escaped segment is the pattern that matches the
  segment's characters one by one.
\<close>

fun escapeRegex :: "string \<Rightarrow> regex" where
  "escapeRegex [] = Eps"
| "escapeRegex (c # cs) = Seq (Chr c) (escapeRegex cs)"

subsection \<open>The validation patterns\<close>

definition word_class :: "(char \<times> char) list" where
  "word_class = [(CHR ''a'', CHR ''z''), (CHR ''A'', CHR ''Z''), (CHR ''0'', CHR ''9''),
                 (CHR ''_'', CHR ''_'')]"

abbreviation rx_w :: regex where
  "rx_w \<equiv> Cls False word_class"

abbreviation rx_d :: regex where
  "rx_d \<equiv> Cls False [(CHR ''0'', CHR ''9'')]"

abbreviation rx_d19 :: regex where
  "rx_d19 \<equiv> Cls False [(CHR ''1'', CHR ''9'')]"

definition single :: "char \<Rightarrow> char \<times> char" where
  "single c = (c, c)"

text \<open>The class \<open>[\w\!\$&'\(\)\*\+\,;\=\:@\-\.~]\<close> of the characters legal in a literal.\<close>

definition legal_class :: "(char \<times> char) list" where
  "legal_class = word_class @ map single ''!$&'' @ [single (CHR 0x27)] @ map single ''()*+,;=:@-.~''"

text \<open>
  \<open>validatePathRegex\<close>, group by group as the comment above it in the source letters them:
  \<open>a\<close> is the root path, \<open>b\<close> a sequence of segments \<open>c\<close> followed by an optional last part
  \<open>i\<close>; a segment is literal text (\<open>e\<close>) or a parameter (\<open>g\<close>) with an optional count (\<open>h\<close>);
  the last part is a slash and an optional parameter (\<open>j\<close>) with a decorator (\<open>k\<close>): a star
  with an optional count (\<open>l\<close>, \<open>m\<close>) or a question mark (\<open>n\<close>).
\<close>

definition vp_e :: regex where
  "vp_e = Group (Alt (Cls False legal_class)
                    (Seq (Chr CHR ''%'') (Times 2 (Cls False [(CHR ''A'', CHR ''F''), (CHR ''0'', CHR ''9'')]))))"

definition vp_h :: regex where
  "vp_h = Group (Seq (Chr CHR ''*'') (Seq rx_d19 (Star rx_d)))"

definition vp_g :: regex where
  "vp_g = Group (Seq (Chr CHR ''{'') (Seq (Plus rx_w) (Seq (Opt vp_h) (Chr CHR ''}''))))"

definition vp_c :: regex where
  "vp_c = Group (Seq (Chr CHR ''/'') (Group (Alt (Plus vp_e) vp_g)))"

definition vp_k :: regex where
  "vp_k = Group (Alt (Group (Seq (Chr CHR ''*'') (Opt (Group (Seq rx_d19 (Star rx_d))))))
                    (Group (Chr CHR ''?'')))"

definition vp_j :: regex where
  "vp_j = Group (Seq (Chr CHR ''{'') (Seq (Plus rx_w) (Seq (Opt vp_k) (Chr CHR ''}''))))"

definition vp_i :: regex where
  "vp_i = Group (Seq (Chr CHR ''/'') (Opt vp_j))"

definition validatePathRegex :: regexp where
  "validatePathRegex = regexp_of
     (Alt (Group (Seq Bol (Seq (Chr CHR ''/'') Eol)))
          (Group (Seq Bol (Seq (Star vp_c) (Seq (Opt vp_i) Eol)))))"

text \<open>
  \<open>validatePathEncodedRegex\<close>:
  \<open>%(?:2[146-9A-E]|3[\dABD]|4[\dA-F]|5[\dAF]|6[1-9A-F]|7[\dAE])\<close>.
\<close>

definition validatePathEncodedRegex :: regexp where
  "validatePathEncodedRegex = regexp_of
     (Seq (Chr CHR ''%'')
        (Alt (Seq (Chr CHR ''2'')
                (Cls False [single CHR ''1'', single CHR ''4'', (CHR ''6'', CHR ''9''), (CHR ''A'', CHR ''E'')]))
        (Alt (Seq (Chr CHR ''3'')
                (Cls False [(CHR ''0'', CHR ''9''), single CHR ''A'', single CHR ''B'', single CHR ''D'']))
        (Alt (Seq (Chr CHR ''4'') (Cls False [(CHR ''0'', CHR ''9''), (CHR ''A'', CHR ''F'')]))
        (Alt (Seq (Chr CHR ''5'')
                (Cls False [(CHR ''0'', CHR ''9''), single CHR ''A'', single CHR ''F'']))
        (Alt (Seq (Chr CHR ''6'') (Cls False [(CHR ''1'', CHR ''9''), (CHR ''A'', CHR ''F'')]))
             (Seq (Chr CHR ''7'')
                (Cls False [(CHR ''0'', CHR ''9''), single CHR ''A'', single CHR ''E'']))))))))"


subsection \<open>\<open>_generateRegex\<close>\<close>

text \<open>\<open>paramRegex\<close>: \<open>^\{(\w+)(?:(\*)(\d+)?)?(\?)?\}$\<close>; 1: name, 2: \<open>*\<close>, 3: segments, 4: optional.\<close>

definition paramRegex :: regexp where
  "paramRegex = regexp_of
     (Seq Bol (Seq (Chr CHR ''{'') (Seq (Group (Plus rx_w))
        (Seq (Opt (Seq (Group (Chr CHR ''*'')) (Opt (Group (Plus rx_d)))))
        (Seq (Opt (Group (Chr CHR ''?''))) (Seq (Chr CHR ''}'') Eol))))))"

record router_settings =
  isCaseSensitive :: bool
  isTrailingSlashSensitive :: bool

record route =
  path :: string
  regexp :: regexp
  params :: "string list"
  fingerprint :: string

text \<open>The three variables the loop over the segments updates.\<close>

record generated =
  params_obj :: "bool obj"
  pathRX :: regex
  fingerprint_acc :: string

abbreviation rx_slash :: regex where
  "rx_slash \<equiv> Chr CHR ''/''"

text \<open>\<open>[^\/]+\<close>, one run of characters other than the slash.\<close>

abbreviation rx_run :: regex where
  "rx_run \<equiv> Plus (Cls True [(CHR ''/'', CHR ''/'')])"

text \<open>
  \<open>segmentRX\<close> of a parameter (lines 188 to 199): the slash, then the capturing group of a
  fixed number of runs, of one or more runs, or of a single run.  \<open>multiCount\<close> is \<open>None\<close>
  when it is \<open>undefined\<close>, the only falsy value besides 0 it can hold.
\<close>

definition is_truthy :: "nat option \<Rightarrow> bool" where
  "is_truthy n = (case n of None \<Rightarrow> False | Some v \<Rightarrow> v \<noteq> 0)"

definition segmentRX :: "bool \<Rightarrow> nat option \<Rightarrow> regex" where
  "segmentRX isMulti multiCount =
     Seq rx_slash
       (if isMulti then
          (if is_truthy multiCount
           then Group (Seq rx_run (Times (the multiCount - 1) (Seq rx_slash rx_run)))
           else Group (Seq rx_run (Star (Seq rx_slash rx_run))))
        else Group rx_run)"

text \<open>What a parameter adds to \<open>pathRX\<close> (lines 201 to 213).\<close>

definition param_pathRX :: "bool \<Rightarrow> bool \<Rightarrow> nat option \<Rightarrow> bool \<Rightarrow> regex" where
  "param_pathRX trailingSlashOptional isMulti multiCount isOptional =
     (if isOptional \<or> (isMulti \<and> \<not> is_truthy multiCount) then
        (if trailingSlashOptional
         then Opt (Alt rx_slash (segmentRX isMulti multiCount))
         else Alt rx_slash (segmentRX isMulti multiCount))
      else segmentRX isMulti multiCount)"

text \<open>What a parameter adds to the fingerprint (lines 215 to 227).\<close>

definition param_fingerprint :: "bool \<Rightarrow> nat option \<Rightarrow> string" where
  "param_fingerprint isMulti multiCount =
     (if isMulti then
        (if is_truthy multiCount then concat (replicate (the multiCount) ''/?'') else ''/?*'')
      else ''/?'')"

text \<open>
  The four variables read from the result of \<open>paramRegex\<close> (lines 180 to 183).
  \<open>multiCount\<close> is \<open>param[3] && parseInt(param[3], 10)\<close>: the falsy \<open>param[3]\<close> itself, or
  the number.
\<close>

definition param_name :: "string option list \<Rightarrow> string" where
  "param_name param = ToString (param ! 1)"

definition param_isMulti :: "string option list \<Rightarrow> bool" where
  "param_isMulti param = ToBoolean (param ! 2)"

definition param_multiCount :: "string option list \<Rightarrow> nat option" where
  "param_multiCount param =
     (if ToBoolean (param ! 3) then parseInt (ToString (param ! 3)) else None)"

definition param_isOptional :: "string option list \<Rightarrow> bool" where
  "param_isOptional param = ToBoolean (param ! 4)"

text \<open>One round of the loop, for one segment.\<close>

definition segment_step :: "bool \<Rightarrow> string \<Rightarrow> generated \<Rightarrow> error + generated" where
  "segment_step trailingSlashOptional segment g =
     (case exec paramRegex segment of
        Some param \<Rightarrow>
          let name = param_name param;
              isMulti = param_isMulti param;
              multiCount = param_multiCount param;
              isOptional = param_isOptional param
          in if obj_truthy (params_obj g) name
             then Inl (AssertionError ''Cannot repeat the same parameter name'')
             else Inr \<lparr>params_obj = obj_set name True (params_obj g),
                       pathRX = Seq (pathRX g)
                                  (param_pathRX trailingSlashOptional isMulti multiCount isOptional),
                       fingerprint_acc = fingerprint_acc g @ param_fingerprint isMulti multiCount\<rparr>
      | None \<Rightarrow>
          if segment \<noteq> [] then
            Inr (g\<lparr>pathRX := Seq (pathRX g) (Seq rx_slash (escapeRegex segment)),
                   fingerprint_acc := fingerprint_acc g @ ''/'' @ segment\<rparr>)
          else
            Inr (g\<lparr>pathRX := Seq (pathRX g) (if trailingSlashOptional then Opt rx_slash else rx_slash),
                   fingerprint_acc := fingerprint_acc g @ ''/''\<rparr>))"

fun segments_loop :: "bool \<Rightarrow> string list \<Rightarrow> generated \<Rightarrow> error + generated" where
  "segments_loop trailingSlashOptional [] g = Inr g"
| "segments_loop trailingSlashOptional (segment # segments) g =
     (case segment_step trailingSlashOptional segment g of
        Inl e \<Rightarrow> Inl e
      | Inr g' \<Rightarrow> segments_loop trailingSlashOptional segments g')"

text \<open>The variables before the loop: no parameter, the empty pattern, the empty fingerprint.\<close>

definition initial :: generated where
  "initial = \<lparr>params_obj = [], pathRX = Eps, fingerprint_acc = []\<rparr>"

text \<open>
  \<open>_generateRegex\<close>: the loop starts at the second segment, and the result anchors the
  pattern at both ends.  A failed assertion leaves the route unbuilt.
\<close>

definition generateRegex :: "router_settings \<Rightarrow> string \<Rightarrow> error + route" where
  "generateRegex settings p =
     (let trailingSlashOptional = \<not> isTrailingSlashSensitive settings;
          segments = split CHR ''/'' p
      in case segments_loop trailingSlashOptional (tl segments) initial of
           Inl e \<Rightarrow> Inl e
         | Inr g \<Rightarrow>
             Inr (if isCaseSensitive settings
                  then \<lparr>path = p,
                        regexp = \<lparr>source = Seq Bol (Seq (pathRX g) Eol), ignoreCase = False\<rparr>,
                        params = Object_keys (params_obj g),
                        fingerprint = fingerprint_acc g\<rparr>
                  else \<lparr>path = p,
                        regexp = \<lparr>source = Seq Bol (Seq (pathRX g) Eol), ignoreCase = True\<rparr>,
                        params = Object_keys (params_obj g),
                        fingerprint = toLowerCase (fingerprint_acc g)\<rparr>))"

subsection \<open>The constructor\<close>

text \<open>
  The part of \<open>Route\<close> that concerns the path: the assertions of lines 26 to 28 and the call
  of \<open>_generateRegex\<close>.  The method, handler, payload, authentication, cache and
  prerequisite settings are configured independently of the path.  \<open>String.prototype.match\<close>
  with a pattern that has the global flag is \<open>null\<close> exactly when there is no first match.
\<close>

definition Route :: "router_settings \<Rightarrow> string \<Rightarrow> error + route" where
  "Route settings p =
     (if p = [] then Inl (AssertionError ''Route options missing path'')
      else if exec validatePathRegex p = None then Inl (AssertionError (''Invalid path: '' @ p))
      else if exec validatePathEncodedRegex p \<noteq> None
        then Inl (AssertionError ''Path cannot contain encoded non-reserved path characters'')
      else generateRegex settings p)"

subsection \<open>\<open>decodeURIComponent\<close>\<close>

text \<open>
  The \<open>Decode\<close> operation of the standard (15.1.3) with an empty reserved set.  The result is a
  sequence of UTF-16 code units.
\<close>

definition hex_val :: "char \<Rightarrow> nat option" where
  "hex_val c =
     (let n = (of_char c :: nat)
      in if 48 \<le> n \<and> n \<le> 57 then Some (n - 48)
         else if 65 \<le> n \<and> n \<le> 70 then Some (n - 55)
         else if 97 \<le> n \<and> n \<le> 102 then Some (n - 87)
         else None)"

definition octet :: "char \<Rightarrow> char \<Rightarrow> nat option" where
  "octet h1 h2 =
     (case (hex_val h1, hex_val h2) of (Some a, Some b) \<Rightarrow> Some (16 * a + b) | _ \<Rightarrow> None)"

text \<open>The number of leading 1 bits of an octet with the most significant bit set.\<close>

definition leading_ones :: "nat \<Rightarrow> nat" where
  "leading_ones B =
     (if B < 192 then 1 else if B < 224 then 2 else if B < 240 then 3 else if B < 248 then 4
      else if B < 252 then 5 else if B < 254 then 6 else if B < 255 then 7 else 8)"

text \<open>The \<open>j\<close> escapes \<open>%XX\<close> that continue a sequence, each with the top bits \<open>10\<close>.\<close>

fun continuation :: "nat \<Rightarrow> string \<Rightarrow> nat list option" where
  "continuation 0 s = Some []"
| "continuation (Suc j) (p # h1 # h2 # rest) =
     (if p \<noteq> CHR ''%'' then None
      else case octet h1 h2 of
             None \<Rightarrow> None
           | Some B \<Rightarrow> if B div 64 \<noteq> 2 then None
                       else map_option ((#) B) (continuation j rest))"
| "continuation (Suc j) _ = None"

text \<open>
  The code point of a sequence of octets, \<open>None\<close> when the sequence is not the UTF-8 encoding
  of a code point: an overlong form, a surrogate, or a value above \<open>0x10FFFF\<close>.
\<close>

definition utf8_value :: "nat list \<Rightarrow> nat option" where
  "utf8_value octets =
     (case octets of
        [b0, b1] \<Rightarrow>
          (let V = (b0 mod 32) * 64 + b1 mod 64 in if V < 128 then None else Some V)
      | [b0, b1, b2] \<Rightarrow>
          (let V = (b0 mod 16) * 4096 + (b1 mod 64) * 64 + b2 mod 64
           in if V < 2048 \<or> (55296 \<le> V \<and> V \<le> 57343) then None else Some V)
      | [b0, b1, b2, b3] \<Rightarrow>
          (let V = (b0 mod 8) * 262144 + (b1 mod 64) * 4096 + (b2 mod 64) * 64 + b3 mod 64
           in if V < 65536 \<or> 1114111 < V then None else Some V)
      | _ \<Rightarrow> None)"

definition utf16 :: "nat \<Rightarrow> nat list" where
  "utf16 V =
     (if V < 65536 then [V]
      else [(V - 65536) div 1024 mod 1024 + 55296, (V - 65536) mod 1024 + 56320])"

text \<open>
  One escape at the head of \<open>s\<close> (which starts with the percent sign): the code units it
  stands for and the number of characters it takes.
\<close>

definition unescape :: "string \<Rightarrow> error + (nat list \<times> nat)" where
  "unescape s =
     (case s of
        p # h1 # h2 # rest \<Rightarrow>
          (case octet h1 h2 of
             None \<Rightarrow> Inl URIError
           | Some B \<Rightarrow>
               if B < 128 then Inr ([B], 3)
               else
                 let n = leading_ones B
                 in if n = 1 \<or> n > 4 then Inl URIError
                    else if length rest < 3 * (n - 1) then Inl URIError
                    else (case continuation (n - 1) rest of
                            None \<Rightarrow> Inl URIError
                          | Some octets \<Rightarrow>
                              (case utf8_value (B # octets) of
                                 None \<Rightarrow> Inl URIError
                               | Some V \<Rightarrow> Inr (utf16 V, 3 * n))))
      | _ \<Rightarrow> Inl URIError)"

function decodeURIComponent :: "string \<Rightarrow> error + nat list" where
  "decodeURIComponent [] = Inr []"
| "decodeURIComponent (c # cs) =
     (if c \<noteq> CHR ''%'' then
        (case decodeURIComponent cs of Inl e \<Rightarrow> Inl e | Inr R \<Rightarrow> Inr (of_char c # R))
      else
        (case unescape (c # cs) of
           Inl e \<Rightarrow> Inl e
         | Inr (S, m) \<Rightarrow>
             (case decodeURIComponent (drop (m - 1) cs) of
                Inl e \<Rightarrow> Inl e
              | Inr R \<Rightarrow> Inr (S @ R))))"
  by pat_completeness auto
termination
  by (relation "measure length") simp_all

subsection \<open>\<open>match\<close> and \<open>test\<close>\<close>

datatype jsval = Undefined | String "nat list"

record request =
  req_path :: string
  req_params :: "jsval obj"
  paramsArray :: "jsval list"

text \<open>
  The value stored for a capture (line 277):
  \<open>typeof match[i] === 'string' ? decodeURIComponent(match[i]) : match[i]\<close>.  A capture that
  is not a string is \<open>undefined\<close> and is stored as it is.
\<close>

definition decode_capture :: "string option \<Rightarrow> error + jsval" where
  "decode_capture v =
     (case v of
        None \<Rightarrow> Inr Undefined
      | Some s \<Rightarrow> (case decodeURIComponent s of Inl e \<Rightarrow> Inl e | Inr d \<Rightarrow> Inr (String d)))"

text \<open>
  The loop of \<open>match\<close> over the captures \<open>match[i]\<close>, \<open>match[i + 1]\<close>, ...: the key is
  \<open>this.params[i - 1]\<close>, \<open>undefined\<close> beyond the end of the list, and a capture with a falsy
  key is skipped.  The error of \<open>decodeURIComponent\<close> is caught and ends the loop with
  \<open>false\<close>; the value pushed is the one just stored.
\<close>

fun match_loop :: "string list \<Rightarrow> nat \<Rightarrow> string option list \<Rightarrow> request \<Rightarrow> bool \<times> request" where
  "match_loop ps i [] req = (True, req)"
| "match_loop ps i (v # vs) req =
     (if i - 1 < length ps \<and> ps ! (i - 1) \<noteq> [] then
        (let key = ps ! (i - 1)
         in case decode_capture v of
              Inl err \<Rightarrow> (False, req)
            | Inr d \<Rightarrow>
                match_loop ps (Suc i) vs
                  (req\<lparr>req_params := obj_set key d (req_params req),
                       paramsArray := paramsArray req @ [d]\<rparr>))
      else match_loop ps (Suc i) vs req)"

definition match :: "route \<Rightarrow> request \<Rightarrow> bool \<times> request" where
  "match r req =
     (case exec (regexp r) (req_path req) of
        None \<Rightarrow> (False, req)
      | Some m \<Rightarrow>
          let req' = req\<lparr>req_params := [], paramsArray := []\<rparr>
          in if length (params r) > 0 then match_loop (params r) 1 (tl m) req'
             else (True, req'))"

definition test :: "route \<Rightarrow> string \<Rightarrow> bool" where
  "test r p = (exec (regexp r) p \<noteq> None)"


subsection \<open>Registering a route and dispatching a request\<close>

text \<open>
  The two ways the rest of the server uses a route: a template is registered under the
  router's settings, and a request that carries a path and no parameters yet is matched
  against it.
\<close>

definition new_request :: "string \<Rightarrow> request" where
  "new_request p = \<lparr>req_path = p, req_params = [], paramsArray = []\<rparr>"

definition match_path :: "router_settings \<Rightarrow> string \<Rightarrow> string \<Rightarrow> error + bool \<times> request" where
  "match_path settings template p =
     (case Route settings template of
        Inl e \<Rightarrow> Inl e
      | Inr r \<Rightarrow> Inr (match r (new_request p)))"

definition test_path :: "router_settings \<Rightarrow> string \<Rightarrow> string \<Rightarrow> error + bool" where
  "test_path settings template p =
     (case Route settings template of
        Inl e \<Rightarrow> Inl e
      | Inr r \<Rightarrow> Inr (test r p))"

definition params_of :: "router_settings \<Rightarrow> string \<Rightarrow> error + string list" where
  "params_of settings template =
     (case Route settings template of
        Inl e \<Rightarrow> Inl e
      | Inr r \<Rightarrow> Inr (params r))"

definition fingerprint_of :: "router_settings \<Rightarrow> string \<Rightarrow> error + string" where
  "fingerprint_of settings template =
     (case Route settings template of
        Inl e \<Rightarrow> Inl e
      | Inr r \<Rightarrow> Inr (fingerprint r))"

abbreviation sensitive :: router_settings where
  "sensitive \<equiv> \<lparr>isCaseSensitive = True, isTrailingSlashSensitive = True\<rparr>"

abbreviation relaxed :: router_settings where
  "relaxed \<equiv> \<lparr>isCaseSensitive = True, isTrailingSlashSensitive = False\<rparr>"

abbreviation caseless :: router_settings where
  "caseless \<equiv> \<lparr>isCaseSensitive = False, isTrailingSlashSensitive = True\<rparr>"

subsection \<open>The end positions of a match\<close>

text \<open>
  Whether an expression matches does not depend on the captures.  \<open>runp\<close> is the matcher
  without them: the end positions \<open>run\<close> reaches, in the same order.
\<close>

type_synonym pstate = "nat \<times> string"

function (sequential) runp :: "bool \<Rightarrow> regex \<Rightarrow> pstate \<Rightarrow> pstate list" where
  "runp ic Eps x = [x]"
| "runp ic (Chr c) (e, inp) =
     (case inp of
        [] \<Rightarrow> []
      | ch # rest \<Rightarrow>
          if canonicalize ic (of_char c) = canonicalize ic (of_char ch)
          then [(Suc e, rest)] else [])"
| "runp ic (Cls neg A) (e, inp) =
     (case inp of
        [] \<Rightarrow> []
      | ch # rest \<Rightarrow>
          if class_member ic A ch \<noteq> neg then [(Suc e, rest)] else [])"
| "runp ic Bol (e, inp) = (if e = 0 then [(e, inp)] else [])"
| "runp ic Eol (e, inp) = (if inp = [] then [(e, inp)] else [])"
| "runp ic (Seq a b) x = concat (map (runp ic b) (runp ic a x))"
| "runp ic (Alt a b) x = runp ic a x @ runp ic b x"
| "runp ic (Group a) x = runp ic a x"
| "runp ic (Rep mn mx a) (e, inp) =
     (if mx = Some 0 then [(e, inp)]
      else
        let again =
          concat (map (\<lambda>(e', inp').
                    if mn = 0 \<and> length inp \<le> length inp' then []
                    else runp ic (Rep (mn - 1) (map_option (\<lambda>m. m - 1) mx) a) (e', inp'))
                  (runp ic a (e, inp)))
        in if mn \<noteq> 0 then again else again @ [(e, inp)])"
  by pat_completeness auto
termination
  by (relation "inv_image (less_than <*lex*> less_than <*lex*> less_than)
        (\<lambda>(ic, r, e, inp). (rsize r, rmin r, length inp))") auto

fun pos :: "mstate \<Rightarrow> pstate" where
  "pos (e, inp, cap) = (e, inp)"


text \<open>
  The words an expression without anchors matches, and the end positions a set of words
  gives from a start position.
\<close>

definition conc :: "string set \<Rightarrow> string set \<Rightarrow> string set" where
  "conc A B = {u @ v | u v. u \<in> A \<and> v \<in> B}"

definition repL :: "nat \<Rightarrow> nat option \<Rightarrow> string set \<Rightarrow> string set" where
  "repL mn mx L =
     {concat ws | ws. set ws \<subseteq> L \<and> mn \<le> length ws \<and> (\<forall>m. mx = Some m \<longrightarrow> length ws \<le> m)}"

fun lang :: "bool \<Rightarrow> regex \<Rightarrow> string set" where
  "lang ic Eps = {[]}"
| "lang ic (Chr c) = {[ch] | ch. canonicalize ic (of_char c) = canonicalize ic (of_char ch)}"
| "lang ic (Cls neg A) = {[ch] | ch. class_member ic A ch \<noteq> neg}"
| "lang ic Bol = {}"
| "lang ic Eol = {}"
| "lang ic (Seq a b) = conc (lang ic a) (lang ic b)"
| "lang ic (Alt a b) = lang ic a \<union> lang ic b"
| "lang ic (Group a) = lang ic a"
| "lang ic (Rep mn mx a) = repL mn mx (lang ic a)"

fun plain :: "regex \<Rightarrow> bool" where
  "plain Bol = False"
| "plain Eol = False"
| "plain (Seq a b) = (plain a \<and> plain b)"
| "plain (Alt a b) = (plain a \<and> plain b)"
| "plain (Group a) = plain a"
| "plain (Rep mn mx a) = (plain a \<and> (case mx of None \<Rightarrow> True | Some m \<Rightarrow> mn \<le> m))"
| "plain _ = True"

definition ends :: "nat \<Rightarrow> string \<Rightarrow> string set \<Rightarrow> pstate set" where
  "ends e inp L = {(e + length w, rest) | w rest. inp = w @ rest \<and> w \<in> L}"


abbreviation dec :: "nat option \<Rightarrow> nat option" where
  "dec mx \<equiv> map_option (\<lambda>m. m - 1) mx"


text \<open>
  The words of the spec for a parameter: a run is a non-empty string without a slash; the
  value of a multi-segment parameter is a sequence of runs separated by single slashes; the
  full fragment of a parameter is the separator followed by the value.
\<close>

definition is_run :: "string \<Rightarrow> bool" where
  "is_run s \<longleftrightarrow> s \<noteq> [] \<and> CHR ''/'' \<notin> set s"

fun join_runs :: "string list \<Rightarrow> string" where
  "join_runs [] = []"
| "join_runs [r] = r"
| "join_runs (r # rs) = r @ CHR ''/'' # join_runs rs"

definition param_words :: "bool \<Rightarrow> nat option \<Rightarrow> string set" where
  "param_words isMulti multiCount =
     (if isMulti then
        (if is_truthy multiCount
         then {CHR ''/'' # join_runs runs | runs. length runs = the multiCount \<and> list_all is_run runs}
         else {CHR ''/'' # join_runs runs | runs. runs \<noteq> [] \<and> list_all is_run runs})
      else {CHR ''/'' # v | v. is_run v})"

text \<open>
  A fragment of a pattern applied on its own, anchored at both ends the way
  \<open>_generateRegex\<close> anchors the pattern.
\<close>

definition fragment_exec :: "bool \<Rightarrow> regex \<Rightarrow> string \<Rightarrow> string option list option" where
  "fragment_exec ic r s = exec \<lparr>source = Seq Bol (Seq r Eol), ignoreCase = ic\<rparr> s"

text \<open>The invariant of the loop: one capturing group for each name, the names distinct.\<close>

definition names_ok :: "generated \<Rightarrow> bool" where
  "names_ok g \<longleftrightarrow>
     ngroups (pathRX g) = length (params_obj g) \<and> distinct (map fst (params_obj g)) \<and>
     (\<forall>kv \<in> set (params_obj g). fst kv \<noteq> [] \<and> snd kv)"

text \<open>
  The shape of a segment, in the spec's terms: a literal with its text, or a parameter of
  one of three kinds, and whether it is marked optional.  The name of a parameter is not
  part of the shape.  The shape is read from the segment the way \<open>_generateRegex\<close> reads it.
\<close>

datatype kind = Literal string | Single | MultiFixed nat | MultiUnbounded

definition segment_shape :: "string \<Rightarrow> kind \<times> bool" where
  "segment_shape seg =
     (case exec paramRegex seg of
        None \<Rightarrow> (Literal seg, False)
      | Some param \<Rightarrow>
          (if param_isMulti param then
             (if is_truthy (param_multiCount param) then MultiFixed (the (param_multiCount param))
              else MultiUnbounded)
           else Single,
           param_isOptional param))"

definition template_shape :: "string \<Rightarrow> (kind \<times> bool) list" where
  "template_shape t = map segment_shape (tl (split CHR ''/'' t))"

text \<open>What the spec says a segment of each shape adds to the fingerprint.\<close>

fun shape_fingerprint :: "kind \<times> bool \<Rightarrow> string" where
  "shape_fingerprint (Literal s, opt) = CHR ''/'' # s"
| "shape_fingerprint (Single, opt) = ''/?''"
| "shape_fingerprint (MultiFixed n, opt) = concat (replicate n ''/?'')"
| "shape_fingerprint (MultiUnbounded, opt) = ''/?*''"

text \<open>The literal texts of a list of shapes, and a shape with its literal text erased.\<close>

fun literal_texts :: "(kind \<times> bool) list \<Rightarrow> string list" where
  "literal_texts [] = []"
| "literal_texts ((Literal s, opt) # xs) = s # literal_texts xs"
| "literal_texts (x # xs) = literal_texts xs"

fun erase_text :: "kind \<times> bool \<Rightarrow> kind \<times> bool" where
  "erase_text (Literal s, opt) = (Literal [], opt)"
| "erase_text x = x"

text \<open>The case folding a configuration applies to the fingerprint.\<close>

definition case_fold :: "router_settings \<Rightarrow> string \<Rightarrow> string" where
  "case_fold settings s = (if isCaseSensitive settings then s else toLowerCase s)"

text \<open>
  The template grammar of the spec.  A token is a literal or a parameter
  \<open>{name}\<close>, \<open>{name*N}\<close>, \<open>{name?}\<close> or \<open>{name*}\<close>; a template is a sequence of tokens, each
  after a slash, with an optional last part: a slash alone, or a slash and a parameter.
\<close>

datatype token =
    Lit string
  | Param string
  | ParamCount string string
  | ParamOptional string
  | ParamUnbounded string

datatype final = NoFinal | Slash | Last token

fun token_text :: "token \<Rightarrow> string" where
  "token_text (Lit s) = s"
| "token_text (Param n) = ''{'' @ n @ ''}''"
| "token_text (ParamCount n c) = ''{'' @ n @ ''*'' @ c @ ''}''"
| "token_text (ParamOptional n) = ''{'' @ n @ ''?}''"
| "token_text (ParamUnbounded n) = ''{'' @ n @ ''*}''"

definition template_text :: "token list \<Rightarrow> final \<Rightarrow> string" where
  "template_text toks fin =
     concat (map (\<lambda>tok. CHR ''/'' # token_text tok) toks)
     @ (case fin of NoFinal \<Rightarrow> [] | Slash \<Rightarrow> ''/'' | Last tok \<Rightarrow> CHR ''/'' # token_text tok)"

text \<open>A name is one or more word characters; a count is a positive number without a leading zero.\<close>

definition is_name :: "string \<Rightarrow> bool" where
  "is_name n \<longleftrightarrow> n \<noteq> [] \<and> list_all (class_member False word_class) n"

definition is_count :: "string \<Rightarrow> bool" where
  "is_count c \<longleftrightarrow> c \<noteq> [] \<and> in_range (hd c) (CHR ''1'', CHR ''9'') \<and> list_all is_digit (tl c)"

text \<open>
  A literal is made of legal characters and of escapes \<open>%XX\<close> with two upper-case
  hexadecimal digits, none of them an escape the module refuses as the encoding of a
  character that needs none (the escapes \<open>validatePathEncodedRegex\<close> finds).
\<close>

definition upper_hex :: "char \<Rightarrow> bool" where
  "upper_hex h = class_member False [(CHR ''A'', CHR ''F''), (CHR ''0'', CHR ''9'')] h"

definition redundant :: "char \<Rightarrow> char \<Rightarrow> bool" where
  "redundant h1 h2 \<longleftrightarrow> exec validatePathEncodedRegex [CHR ''%'', h1, h2] \<noteq> None"

fun literal_chars :: "string \<Rightarrow> bool" where
  "literal_chars [] = True"
| "literal_chars (c # cs) =
     (if c = CHR ''%'' then
        (case cs of
           h1 # h2 # r \<Rightarrow> upper_hex h1 \<and> upper_hex h2 \<and> \<not> redundant h1 h2 \<and> literal_chars r
         | _ \<Rightarrow> False)
      else class_member False legal_class c \<and> literal_chars cs)"

fun token_ok :: "token \<Rightarrow> bool" where
  "token_ok (Lit s) = (s \<noteq> [] \<and> literal_chars s)"
| "token_ok (Param n) = is_name n"
| "token_ok (ParamCount n c) = (is_name n \<and> is_count c)"
| "token_ok (ParamOptional n) = is_name n"
| "token_ok (ParamUnbounded n) = is_name n"

text \<open>
  The tokens the validation pattern takes in any position, and the last parts it takes: an
  optional or unbounded parameter only as the last part.
\<close>

fun inner_token :: "token \<Rightarrow> bool" where
  "inner_token (ParamOptional n) = False"
| "inner_token (ParamUnbounded n) = False"
| "inner_token _ = True"

fun final_ok :: "final \<Rightarrow> bool" where
  "final_ok NoFinal = True"
| "final_ok Slash = True"
| "final_ok (Last (Lit s)) = False"
| "final_ok (Last tok) = token_ok tok"

text \<open>No escape the module refuses starts anywhere in the string.\<close>

fun no_redundant :: "string \<Rightarrow> bool" where
  "no_redundant [] = True"
| "no_redundant (c # cs) =
     ((c = CHR ''%'' \<longrightarrow> (case cs of h1 # h2 # r \<Rightarrow> \<not> redundant h1 h2 | _ \<Rightarrow> True))
      \<and> no_redundant cs)"

text \<open>The same, and every percent sign is followed by two characters.\<close>

fun escapes_closed :: "string \<Rightarrow> bool" where
  "escapes_closed [] = True"
| "escapes_closed (c # cs) =
     ((c = CHR ''%'' \<longrightarrow> (case cs of h1 # h2 # r \<Rightarrow> \<not> redundant h1 h2 | _ \<Rightarrow> False))
      \<and> escapes_closed cs)"

section \<open>Evaluation\<close>

lemma char_of_nat_eval:
  "char_of (n::nat) = Char (odd n) (odd (n div 2)) (odd (n div 4)) (odd (n div 8))
     (odd (n div 16)) (odd (n div 32)) (odd (n div 64)) (odd (n div 128))"
  by (simp add: char_of_def bit_iff_odd)

lemmas rx_eval =
  exec_def regexp_of_def validatePathRegex_def validatePathEncodedRegex_def paramRegex_def
  vp_c_def vp_e_def vp_g_def vp_h_def vp_i_def vp_j_def vp_k_def legal_class_def
  word_class_def single_def class_member_def in_range_def canonicalize_def

lemmas route_eval =
  Route_def generateRegex_def initial_def segment_step_def param_name_def param_isMulti_def
  param_multiCount_def param_isOptional_def ToString_def ToBoolean_def parseInt_def
  is_digit_def digit_val_def decimal_def obj_truthy_def Object_prototype_def segmentRX_def
  param_pathRX_def param_fingerprint_def is_truthy_def Object_keys_def array_index_def
  toLowerCase_def lower_char_def List.map_filter_def char_of_nat_eval

lemmas decode_eval =
  decode_capture_def unescape_def octet_def hex_val_def leading_ones_def utf8_value_def utf16_def

lemmas request_eval =
  match_path_def test_path_def params_of_def fingerprint_of_def new_request_def match_def
  test_def

section \<open>The matcher and the words of an expression\<close>

lemma map_pos_concat:
  "map pos (concat (map f xs)) = concat (map (\<lambda>x. map pos (f x)) xs)"
  by (induction xs) auto

lemma run_runp: "map pos (run ic r k x) = runp ic r (pos x)"
proof (induction ic r k x rule: run.induct)
  case (6 ic a b k x)
  have "map pos (run ic (Seq a b) k x)
        = concat (map (\<lambda>y. map pos (run ic b (k + ngroups a) y)) (run ic a k x))"
    by (simp add: map_pos_concat)
  also have "\<dots> = concat (map (\<lambda>y. runp ic b (pos y)) (run ic a k x))"
    using "6.IH"(2) by (intro arg_cong[where f=concat] map_cong) auto
  also have "\<dots> = concat (map (runp ic b) (map pos (run ic a k x)))"
    by (simp add: comp_def)
  finally show ?case using "6.IH"(1) by simp
next
  case (8 ic a k e inp cap)
  have "map pos (run ic (Group a) k (e, inp, cap)) = map pos (run ic a (Suc k) (e, inp, cap))"
    by (auto simp: comp_def split_def intro!: map_cong) 
  then show ?case using "8.IH" by simp
next
  case (9 ic mn mx a k e inp cap)
  show ?case
  proof (cases "mx = Some 0")
    case True
    then show ?thesis by simp
  next
    case False
    let ?x = "(e, inp, clear k (ngroups a) cap)"
    let ?R = "Rep (mn - 1) (map_option (\<lambda>m. m - 1) mx) a"
    let ?f = "\<lambda>(e', inp', cap'). if mn = 0 \<and> length inp \<le> length inp' then []
                    else run ic ?R k (e', inp', cap')"
    let ?g = "\<lambda>(e', inp'). if mn = 0 \<and> length inp \<le> length inp' then []
                    else runp ic ?R (e', inp')"
    have a: "map pos (run ic a k ?x) = runp ic a (e, inp)"
      using "9.IH"(1)[OF False] by simp
    have "map pos (concat (map ?f (run ic a k ?x)))
          = concat (map (\<lambda>y. map pos (?f y)) (run ic a k ?x))"
      by (simp add: map_pos_concat)
    also have "\<dots> = concat (map (\<lambda>y. ?g (pos y)) (run ic a k ?x))"
    proof (intro arg_cong[where f=concat] map_cong refl)
      fix y assume y: "y \<in> set (run ic a k ?x)"
      obtain e' inp' cap' where [simp]: "y = (e', inp', cap')" by (cases y)
      show "map pos (?f y) = ?g (pos y)"
        using "9.IH"(2)[OF False y, of e' "(inp', cap')" inp' cap'] by auto
    qed
    also have "\<dots> = concat (map ?g (map pos (run ic a k ?x)))"
      by (simp add: comp_def)
    finally have eq0: "map pos (concat (map ?f (run ic a k ?x))) = concat (map ?g (runp ic a (e, inp)))"
      using a by (simp del: run.simps runp.simps)
    define A where "A = concat (map ?f (run ic a k ?x))"
    define B where "B = concat (map ?g (runp ic a (e, inp)))"
    have eq: "map pos A = B"
      unfolding A_def B_def by (rule eq0)
    have L: "run ic (Rep mn mx a) k (e, inp, cap) = (if mn \<noteq> 0 then A else A @ [(e, inp, cap)])"
      unfolding A_def using False by (subst run.simps) (simp only: if_False Let_def)
    have R: "runp ic (Rep mn mx a) (e, inp) = (if mn \<noteq> 0 then B else B @ [(e, inp)])"
      unfolding B_def using False by (subst runp.simps) (simp only: if_False Let_def)
    show ?thesis
      unfolding L R pos.simps by (simp add: eq)
  qed
qed (auto split: list.splits)

lemma ends_empty_word [simp]: "ends e inp {[]} = {(e, inp)}"
  by (auto simp: ends_def)

lemma ends_empty [simp]: "ends e inp {} = {}"
  by (auto simp: ends_def)

lemma ends_insert_Nil: "ends e inp (insert [] A) = insert (e, inp) (ends e inp A)"
  by (auto simp: ends_def)

lemma ends_Un: "ends e inp (A \<union> B) = ends e inp A \<union> ends e inp B"
  by (auto simp: ends_def)

lemma ends_conc: "(\<Union>y \<in> ends e inp A. ends (fst y) (snd y) B) = ends e inp (conc A B)"
proof (intro set_eqI iffI)
  fix z assume "z \<in> (\<Union>y \<in> ends e inp A. ends (fst y) (snd y) B)"
  then obtain u r1 v r2 where "inp = u @ r1" "u \<in> A" "r1 = v @ r2" "v \<in> B"
    "z = (e + length u + length v, r2)"
    by (auto simp: ends_def)
  then have "inp = (u @ v) @ r2" "u @ v \<in> conc A B" "z = (e + length (u @ v), r2)"
    by (auto simp: conc_def)
  then show "z \<in> ends e inp (conc A B)"
    unfolding ends_def by blast
next
  fix z assume "z \<in> ends e inp (conc A B)"
  then obtain u v r2 where *: "inp = (u @ v) @ r2" "u \<in> A" "v \<in> B" "z = (e + length (u @ v), r2)"
    by (auto simp: ends_def conc_def)
  then have "(e + length u, v @ r2) \<in> ends e inp A"
    by (auto simp: ends_def)
  moreover have "z \<in> ends (e + length u) (v @ r2) B"
    using * by (auto simp: ends_def)
  ultimately show "z \<in> (\<Union>y \<in> ends e inp A. ends (fst y) (snd y) B)"
    by force
qed

lemma ends_progress: "{y \<in> ends e inp A. length (snd y) < length inp} = ends e inp (A - {[]})"
  by (auto simp: ends_def)

lemma repL_Some0 [simp]: "repL 0 (Some 0) L = {[]}"
  by (auto simp: repL_def)

lemma repL_pos:
  assumes "0 < mn" "mx \<noteq> Some 0"
  shows "repL mn mx L = conc L (repL (mn - 1) (dec mx) L)"
proof (intro set_eqI iffI)
  fix w assume "w \<in> repL mn mx L"
  then obtain ws where ws: "w = concat ws" "set ws \<subseteq> L" "mn \<le> length ws"
    "\<forall>m. mx = Some m \<longrightarrow> length ws \<le> m"
    by (auto simp: repL_def)
  with assms obtain u ws' where [simp]: "ws = u # ws'" by (cases ws) auto
  have "concat ws' \<in> repL (mn - 1) (dec mx) L"
    unfolding repL_def using ws by (cases mx) (auto intro!: exI[of _ ws'])
  then show "w \<in> conc L (repL (mn - 1) (dec mx) L)"
    using ws by (auto simp: conc_def)
next
  fix w assume "w \<in> conc L (repL (mn - 1) (dec mx) L)"
  then obtain u ws where ws: "w = u @ concat ws" "u \<in> L" "set ws \<subseteq> L" "mn - 1 \<le> length ws"
    "\<forall>m. dec mx = Some m \<longrightarrow> length ws \<le> m"
    by (auto simp: repL_def conc_def)
  have "w = concat (u # ws)" "set (u # ws) \<subseteq> L" "mn \<le> length (u # ws)"
    using ws by auto
  moreover have "\<forall>m. mx = Some m \<longrightarrow> length (u # ws) \<le> m"
    using ws(5) assms(2) by (cases mx) auto
  ultimately show "w \<in> repL mn mx L"
    unfolding repL_def by blast
qed

lemma repL_zero:
  assumes "mx \<noteq> Some 0"
  shows "repL 0 mx L = {[]} \<union> conc (L - {[]}) (repL 0 (dec mx) L)"
proof (intro set_eqI iffI)
  fix w assume "w \<in> repL 0 mx L"
  then obtain ws where ws: "w = concat ws" "set ws \<subseteq> L"
    "\<forall>m. mx = Some m \<longrightarrow> length ws \<le> m"
    by (auto simp: repL_def)
  define vs where "vs = filter (\<lambda>u. u \<noteq> []) ws"
  have c: "concat vs = concat ws"
    unfolding vs_def by (induction ws) auto
  have l: "length vs \<le> length ws" and s: "set vs \<subseteq> L - {[]}"
    unfolding vs_def using ws by auto
  show "w \<in> {[]} \<union> conc (L - {[]}) (repL 0 (dec mx) L)"
  proof (cases vs)
    case Nil
    then show ?thesis using c ws by simp
  next
    case (Cons u vs')
    have "concat vs' \<in> repL 0 (dec mx) L"
      unfolding repL_def using ws l s Cons by (cases mx) (auto intro!: exI[of _ vs'])
    moreover have "u \<in> L - {[]}" using s Cons by auto
    moreover have "w = u @ concat vs'" using c ws Cons by simp
    ultimately show ?thesis unfolding conc_def by blast
  qed
next
  fix w assume "w \<in> {[]} \<union> conc (L - {[]}) (repL 0 (dec mx) L)"
  then consider "w = []" | u ws where "w = u @ concat ws" "u \<in> L" "set ws \<subseteq> L"
    "\<forall>m. dec mx = Some m \<longrightarrow> length ws \<le> m"
    by (auto simp: repL_def conc_def)
  then show "w \<in> repL 0 mx L"
  proof cases
    case 1
    then show ?thesis unfolding repL_def by (auto intro!: exI[of _ "[]"])
  next
    case 2
    have "w = concat (u # ws)" "set (u # ws) \<subseteq> L"
      using 2 by auto
    moreover have "\<forall>m. mx = Some m \<longrightarrow> length (u # ws) \<le> m"
      using 2(4) assms by (cases mx) auto
    ultimately show ?thesis unfolding repL_def by blast
  qed
qed

lemma runp_Rep_set:
  "set (runp ic (Rep mn mx a) (e, inp)) =
     (if mx = Some 0 then {(e, inp)}
      else if mn \<noteq> 0 then (\<Union>y \<in> set (runp ic a (e, inp)). set (runp ic (Rep (mn - 1) (dec mx) a) y))
      else (\<Union>y \<in> {y \<in> set (runp ic a (e, inp)). length (snd y) < length inp}.
               set (runp ic (Rep 0 (dec mx) a) y)) \<union> {(e, inp)})"
proof -
  define g where "g = (\<lambda>y. if mn = 0 \<and> length inp \<le> length (snd y) then []
                         else runp ic (Rep (mn - 1) (dec mx) a) y)"
  have g: "(\<lambda>(e', inp'). if mn = 0 \<and> length inp \<le> length inp' then []
              else runp ic (Rep (mn - 1) (dec mx) a) (e', inp')) = g"
    unfolding g_def by (rule ext) (simp only: split_paired_all prod.case snd_conv)
  have u: "runp ic (Rep mn mx a) (e, inp) =
        (if mx = Some 0 then [(e, inp)]
         else if mn \<noteq> 0 then concat (map g (runp ic a (e, inp)))
         else concat (map g (runp ic a (e, inp))) @ [(e, inp)])"
    by (subst runp.simps) (simp only: Let_def g)
  have s: "set (concat (map g (runp ic a (e, inp)))) = (\<Union>y \<in> set (runp ic a (e, inp)). set (g y))"
    by simp
  have p: "mn \<noteq> 0 \<Longrightarrow> (\<Union>y \<in> set (runp ic a (e, inp)). set (g y))
          = (\<Union>y \<in> set (runp ic a (e, inp)). set (runp ic (Rep (mn - 1) (dec mx) a) y))"
    unfolding g_def by (simp del: runp.simps)
  have z: "mn = 0 \<Longrightarrow> (\<Union>y \<in> set (runp ic a (e, inp)). set (g y))
          = (\<Union>y \<in> {y \<in> set (runp ic a (e, inp)). length (snd y) < length inp}.
               set (runp ic (Rep 0 (dec mx) a) y))"
  proof -
    assume mn: "mn = 0"
    have gy: "set (g y) = (if length (snd y) < length inp then set (runp ic (Rep 0 (dec mx) a) y) else {})"
      for y unfolding g_def using mn by (simp del: runp.simps)
    show ?thesis
      unfolding gy by (auto split: if_splits simp del: runp.simps)
  qed
  show ?thesis
    unfolding u using p z by (simp del: runp.simps add: s)
qed

lemma rep_lang:
  assumes A: "\<And>e inp. set (runp ic a (e, inp)) = ends e inp L"
    and B: "case mx of None \<Rightarrow> True | Some m \<Rightarrow> mn \<le> m"
  shows "set (runp ic (Rep mn mx a) (e, inp)) = ends e inp (repL mn mx L)"
  using B
proof (induction "mn + length inp" arbitrary: mn mx e inp rule: less_induct)
  case less
  show ?case
  proof (cases "mx = Some 0")
    case True
    with less.prems have "mn = 0" by simp
    with True show ?thesis by (simp add: runp_Rep_set del: runp.simps)
  next
    case False
    have B': "case dec mx of None \<Rightarrow> True | Some m \<Rightarrow> mn - 1 \<le> m"
      using less.prems by (cases mx) auto
    show ?thesis
    proof (cases "mn = 0")
      case mn: False
      have "set (runp ic (Rep mn mx a) (e, inp))
            = (\<Union>y \<in> ends e inp L. set (runp ic (Rep (mn - 1) (dec mx) a) y))"
        using False mn by (simp add: runp_Rep_set A del: runp.simps)
      also have "\<dots> = (\<Union>y \<in> ends e inp L. ends (fst y) (snd y) (repL (mn - 1) (dec mx) L))"
      proof (intro SUP_cong refl)
        fix y assume "y \<in> ends e inp L"
        then have "length (snd y) \<le> length inp" by (auto simp: ends_def)
        then have "mn - 1 + length (snd y) < mn + length inp" using mn by simp
        from less.hyps[OF this B', of "fst y"]
        show "set (runp ic (Rep (mn - 1) (dec mx) a) y) = ends (fst y) (snd y) (repL (mn - 1) (dec mx) L)"
          by simp
      qed
      also have "\<dots> = ends e inp (repL mn mx L)"
        using False mn by (simp add: ends_conc repL_pos)
      finally show ?thesis .
    next
      case mn: True
      have "set (runp ic (Rep mn mx a) (e, inp))
            = (\<Union>y \<in> ends e inp (L - {[]}). set (runp ic (Rep 0 (dec mx) a) y)) \<union> {(e, inp)}"
        using False mn by (simp add: runp_Rep_set A ends_progress del: runp.simps)
      also have "(\<Union>y \<in> ends e inp (L - {[]}). set (runp ic (Rep 0 (dec mx) a) y))
                 = (\<Union>y \<in> ends e inp (L - {[]}). ends (fst y) (snd y) (repL 0 (dec mx) L))"
      proof (intro SUP_cong refl)
        fix y assume "y \<in> ends e inp (L - {[]})"
        then have "length (snd y) < length inp" by (auto simp: ends_def)
        then have "0 + length (snd y) < mn + length inp" by simp
        moreover have "case dec mx of None \<Rightarrow> True | Some m \<Rightarrow> 0 \<le> m"
          by (cases mx) auto
        ultimately have "set (runp ic (Rep 0 (dec mx) a) (fst y, snd y))
                         = ends (fst y) (snd y) (repL 0 (dec mx) L)"
          by (rule less.hyps)
        then show "set (runp ic (Rep 0 (dec mx) a) y) = ends (fst y) (snd y) (repL 0 (dec mx) L)"
          by simp
      qed
      also have "\<dots> \<union> {(e, inp)} = ends e inp (repL mn mx L)"
        using False mn by (simp add: ends_conc repL_zero[OF False] ends_insert_Nil)
      finally show ?thesis .
    qed
  qed
qed

theorem runp_lang: "plain r \<Longrightarrow> set (runp ic r (e, inp)) = ends e inp (lang ic r)"
proof (induction r arbitrary: e inp)
  case Eps
  show ?case by simp
next
  case (Chr c)
  show ?case by (cases inp) (auto simp: ends_def)
next
  case (Cls neg A)
  show ?case by (cases inp) (auto simp: ends_def)
next
  case Bol
  then show ?case by simp
next
  case Eol
  then show ?case by simp
next
  case (Seq a b)
  have "set (runp ic (Seq a b) (e, inp)) = (\<Union>y \<in> set (runp ic a (e, inp)). set (runp ic b y))"
    by simp
  also have "\<dots> = (\<Union>y \<in> ends e inp (lang ic a). ends (fst y) (snd y) (lang ic b))"
  proof (intro SUP_cong)
    show "set (runp ic a (e, inp)) = ends e inp (lang ic a)"
      using Seq by simp
    fix y assume "y \<in> ends e inp (lang ic a)"
    show "set (runp ic b y) = ends (fst y) (snd y) (lang ic b)"
      using Seq.IH(2)[of "fst y" "snd y"] Seq.prems by simp
  qed
  finally show ?case by (simp add: ends_conc)
next
  case (Alt a b)
  then show ?case by (simp add: ends_Un)
next
  case (Group a)
  then show ?case by simp
next
  case (Rep mn mx a)
  then show ?case
    using rep_lang[where ic=ic and a=a and L="lang ic a" and mx=mx and mn=mn]
    by (simp del: runp.simps)
qed

lemma run_empty_iff: "run ic r k x = [] \<longleftrightarrow> runp ic r (pos x) = []"
  using run_runp[of ic r k x] by (metis map_is_Nil_conv)

lemma in_run_pos: "y \<in> set (run ic r k x) \<Longrightarrow> pos y \<in> set (runp ic r (pos x))"
  using run_runp[of ic r k x] by (metis imageI set_map)

lemma runp_Rep_cases:
  assumes "y \<in> set (runp ic (Rep mn mx a) (e, inp))"
  shows "y = (e, inp) \<or>
         (mx \<noteq> Some 0 \<and> (\<exists>z \<in> set (runp ic a (e, inp)).
             \<not> (mn = 0 \<and> length inp \<le> length (snd z)) \<and>
             y \<in> set (runp ic (Rep (mn - 1) (dec mx) a) z)))"
proof -
  have "y \<in> (if mx = Some 0 then {(e, inp)}
      else if mn \<noteq> 0 then (\<Union>y \<in> set (runp ic a (e, inp)). set (runp ic (Rep (mn - 1) (dec mx) a) y))
      else (\<Union>y \<in> {y \<in> set (runp ic a (e, inp)). length (snd y) < length inp}.
               set (runp ic (Rep 0 (dec mx) a) y)) \<union> {(e, inp)})"
    using assms unfolding runp_Rep_set .
  then consider "y = (e, inp)"
    | z where "mx \<noteq> Some 0" "mn \<noteq> 0" "z \<in> set (runp ic a (e, inp))"
        "y \<in> set (runp ic (Rep (mn - 1) (dec mx) a) z)"
    | z where "mx \<noteq> Some 0" "mn = 0" "z \<in> set (runp ic a (e, inp))" "length (snd z) < length inp"
        "y \<in> set (runp ic (Rep 0 (dec mx) a) z)"
    by (auto simp del: runp.simps split: if_splits)
  then show ?thesis
  proof cases
    case 1
    then show ?thesis by simp
  next
    case 2
    then show ?thesis by blast
  next
    case 3
    have "\<not> (mn = 0 \<and> length inp \<le> length (snd z))" using 3(4) by simp
    moreover have "y \<in> set (runp ic (Rep (mn - 1) (dec mx) a) z)" using 3(2,5) by simp
    ultimately show ?thesis using 3(1,3) by blast
  qed
qed

lemma runp_suffix:
  "y \<in> set (runp ic r x) \<Longrightarrow> \<exists>w. snd x = w @ snd y \<and> fst y = fst x + length w"
proof (induction ic r x arbitrary: y rule: runp.induct)
  case (6 ic a b x)
  then obtain z where z: "z \<in> set (runp ic a x)" "y \<in> set (runp ic b z)" by auto
  from "6.IH"(1)[OF z(1)] "6.IH"(2)[OF z(1) z(2)] show ?case by fastforce
next
  case (9 ic mn mx a e inp)
  from runp_Rep_cases[OF "9.prems"] show ?case
  proof
    assume "y = (e, inp)"
    then show ?thesis by simp
  next
    assume "mx \<noteq> Some 0 \<and> (\<exists>z \<in> set (runp ic a (e, inp)).
             \<not> (mn = 0 \<and> length inp \<le> length (snd z)) \<and>
             y \<in> set (runp ic (Rep (mn - 1) (dec mx) a) z))"
    then obtain z where mx: "mx \<noteq> Some 0" and z: "z \<in> set (runp ic a (e, inp))"
      "\<not> (mn = 0 \<and> length inp \<le> length (snd z))"
      "y \<in> set (runp ic (Rep (mn - 1) (dec mx) a) z)"
      by blast
    obtain e' inp' where zz: "z = (e', inp')" by (cases z)
    have 1: "\<exists>w. inp = w @ inp' \<and> e' = e + length w"
      using "9.IH"(1)[OF mx z(1)] zz by simp
    have 2: "\<exists>w. inp' = w @ snd y \<and> fst y = e' + length w"
      using "9.IH"(2)[OF mx z(1) zz[symmetric] _ z(3)[unfolded zz]] z(2) zz by simp
    from 1 2 show ?thesis by fastforce
  qed
qed (auto split: list.splits if_splits)

lemma run_suffix:
  assumes "(e', inp', cap') \<in> set (run ic r k (e, inp, cap))"
  shows "\<exists>w. inp = w @ inp' \<and> e' = e + length w"
  using runp_suffix[OF in_run_pos[OF assms]] by simp

lemma length_clear [simp]: "length (clear k n cap) = length cap"
  by (induction k n cap rule: clear.induct) auto

lemma nth_clear: "j < k \<or> k + n \<le> j \<Longrightarrow> clear k n cap ! j = cap ! j"
  by (induction k n cap rule: clear.induct) auto

lemma run_Rep_cases:
  assumes "y \<in> set (run ic (Rep mn mx a) k (e, inp, cap))"
  shows "y = (e, inp, cap) \<or>
         (mx \<noteq> Some 0 \<and> (\<exists>e1 inp1 cap1. (e1, inp1, cap1) \<in> set (run ic a k (e, inp, clear k (ngroups a) cap)) \<and>
             \<not> (mn = 0 \<and> length inp \<le> length inp1) \<and>
             y \<in> set (run ic (Rep (mn - 1) (dec mx) a) k (e1, inp1, cap1))))"
proof -
  define g where "g = (\<lambda>(e', inp', cap'). if mn = 0 \<and> length inp \<le> length inp' then []
                    else run ic (Rep (mn - 1) (dec mx) a) k (e', inp', cap'))"
  have u: "run ic (Rep mn mx a) k (e, inp, cap) =
        (if mx = Some 0 then [(e, inp, cap)]
         else if mn \<noteq> 0 then concat (map g (run ic a k (e, inp, clear k (ngroups a) cap)))
         else concat (map g (run ic a k (e, inp, clear k (ngroups a) cap))) @ [(e, inp, cap)])"
    unfolding g_def by (subst run.simps) (simp only: Let_def)
  show ?thesis
  proof (cases "y = (e, inp, cap)")
    case True
    then show ?thesis by simp
  next
    case False
    with assms have mx: "mx \<noteq> Some 0" and "y \<in> set (concat (map g (run ic a k (e, inp, clear k (ngroups a) cap))))"
      unfolding u by (auto split: if_splits simp del: run.simps)
    then obtain z where z: "z \<in> set (run ic a k (e, inp, clear k (ngroups a) cap))" "y \<in> set (g z)"
      by auto
    obtain e1 inp1 cap1 where zz: "z = (e1, inp1, cap1)" by (cases z)
    have "\<not> (mn = 0 \<and> length inp \<le> length inp1)" "y \<in> set (run ic (Rep (mn - 1) (dec mx) a) k (e1, inp1, cap1))"
      using z(2) unfolding zz g_def by (auto split: if_splits simp del: run.simps)
    with mx z(1) zz show ?thesis by blast
  qed
qed

lemma run_caps:
  "(e', inp', cap') \<in> set (run ic r k (e, inp, cap)) \<Longrightarrow>
     length cap' = length cap \<and> (\<forall>j. j < k \<or> k + ngroups r \<le> j \<longrightarrow> cap' ! j = cap ! j)"
proof (induction ic r k "(e, inp, cap)" arbitrary: e inp cap e' inp' cap' rule: run.induct)
  case (6 ic a b k)
  then obtain e1 inp1 cap1 where z: "(e1, inp1, cap1) \<in> set (run ic a k (e, inp, cap))"
    "(e', inp', cap') \<in> set (run ic b (k + ngroups a) (e1, inp1, cap1))" by auto
  from "6.hyps"(1)[OF z(1)] "6.hyps"(2)[OF z(1) z(2)] show ?case by auto
next
  case (7 ic a b k)
  then consider "(e', inp', cap') \<in> set (run ic a k (e, inp, cap))"
    | "(e', inp', cap') \<in> set (run ic b (k + ngroups a) (e, inp, cap))" by auto
  then show ?case
  proof cases
    case 1 from "7.hyps"(1)[OF 1] show ?thesis by auto
  next
    case 2 from "7.hyps"(2)[OF 2] show ?thesis by auto
  qed
next
  case (8 ic a k e inp cap)
  then obtain c where c: "(e', inp', c) \<in> set (run ic a (Suc k) (e, inp, cap))"
    "cap' = c[k := Some (take (e' - e) inp)]" by auto
  from "8.hyps"[OF c(1)] c(2) show ?case by auto
next
  case (9 ic mn mx a k e inp cap)
  from run_Rep_cases[OF "9.prems"] show ?case
  proof
    assume "(e', inp', cap') = (e, inp, cap)"
    then show ?thesis by simp
  next
    assume "mx \<noteq> Some 0 \<and> (\<exists>e1 inp1 cap1. (e1, inp1, cap1) \<in> set (run ic a k (e, inp, clear k (ngroups a) cap)) \<and>
             \<not> (mn = 0 \<and> length inp \<le> length inp1) \<and>
             (e', inp', cap') \<in> set (run ic (Rep (mn - 1) (dec mx) a) k (e1, inp1, cap1)))"
    then obtain e1 inp1 cap1 where mx: "mx \<noteq> Some 0"
      and z: "(e1, inp1, cap1) \<in> set (run ic a k (e, inp, clear k (ngroups a) cap))"
      "\<not> (mn = 0 \<and> length inp \<le> length inp1)"
      "(e', inp', cap') \<in> set (run ic (Rep (mn - 1) (dec mx) a) k (e1, inp1, cap1))"
      by blast
    from "9.hyps"(1)[OF mx z(1)] "9.hyps"(2)[OF mx z(1) refl refl z(2) z(3)]
    show ?thesis by (auto simp: nth_clear)
  qed
qed (auto split: list.splits if_splits)

lemma exec_at_None_unfold:
  "exec_at ic r i inp = None \<longleftrightarrow>
     runp ic r (i, inp) = [] \<and> (case inp of [] \<Rightarrow> True | _ # inp' \<Rightarrow> exec_at ic r (Suc i) inp' = None)"
proof -
  have "exec_at ic r i inp = None \<longleftrightarrow>
     run ic r 0 (i, inp, replicate (ngroups r) None) = [] \<and>
     (case inp of [] \<Rightarrow> True | _ # inp' \<Rightarrow> exec_at ic r (Suc i) inp' = None)"
    by (subst exec_at.simps) (auto split: list.splits simp del: exec_at.simps)
  then show ?thesis by (simp add: run_empty_iff del: exec_at.simps)
qed

lemma exec_at_None:
  "exec_at ic r i inp = None \<longleftrightarrow> (\<forall>j \<le> length inp. runp ic r (i + j, drop j inp) = [])"
proof (induction inp arbitrary: i)
  case Nil
  show ?case
    by (subst exec_at_None_unfold) simp
next
  case (Cons c cs)
  have "(\<forall>j \<le> length (c # cs). runp ic r (i + j, drop j (c # cs)) = [])
        \<longleftrightarrow> runp ic r (i, c # cs) = [] \<and> (\<forall>j \<le> length cs. runp ic r (Suc i + j, drop j cs) = [])"
    (is "?L \<longleftrightarrow> ?R")
  proof
    assume L: ?L
    have "runp ic r (i, c # cs) = []" using L[rule_format, of 0] by simp
    moreover have "runp ic r (Suc i + j, drop j cs) = []" if "j \<le> length cs" for j
      using L[rule_format, of "Suc j"] that by simp
    ultimately show ?R by blast
  next
    assume R: ?R
    show ?L
    proof (intro allI impI)
      fix j assume "j \<le> length (c # cs)"
      then show "runp ic r (i + j, drop j (c # cs)) = []"
        using R by (cases j) auto
    qed
  qed
  then show ?case
    using Cons[of "Suc i"] by (subst exec_at_None_unfold) simp
qed

lemma exec_at_Some:
  assumes "exec_at ic r i inp = Some m"
  shows "\<exists>j e rest cap. j \<le> length inp \<and>
           (e, rest, cap) \<in> set (run ic r 0 (i + j, drop j inp, replicate (ngroups r) None)) \<and>
           m = Some (take (e - (i + j)) (drop j inp)) # cap"
  using assms
proof (induction inp arbitrary: i)
  case Nil
  then obtain e rest cap xs where "run ic r 0 (i, [], replicate (ngroups r) None) = (e, rest, cap) # xs"
    "m = Some (take (e - i) []) # cap"
    by (subst (asm) exec_at.simps) (auto split: list.splits simp del: exec_at.simps)
  then show ?case by (intro exI[of _ 0] exI[of _ e] exI[of _ rest] exI[of _ cap]) simp
next
  case (Cons c cs)
  show ?case
  proof (cases "run ic r 0 (i, c # cs, replicate (ngroups r) None)")
    case Nil
    with Cons.prems have "exec_at ic r (Suc i) cs = Some m"
      by (subst (asm) exec_at.simps) (simp del: exec_at.simps)
    from Cons.IH[OF this] obtain j e rest cap where "j \<le> length cs"
      "(e, rest, cap) \<in> set (run ic r 0 (Suc i + j, drop j cs, replicate (ngroups r) None))"
      "m = Some (take (e - (Suc i + j)) (drop j cs)) # cap" by blast
    then show ?thesis
      by (intro exI[of _ "Suc j"] exI[of _ e] exI[of _ rest] exI[of _ cap]) simp
  next
    case (Cons x xs)
    obtain e rest cap where x: "x = (e, rest, cap)" by (cases x)
    with Cons Cons.prems have "m = Some (take (e - i) (c # cs)) # cap"
      by (subst (asm) exec_at.simps) (simp del: exec_at.simps)
    with Cons x show ?thesis
      by (intro exI[of _ 0] exI[of _ e] exI[of _ rest] exI[of _ cap]) simp
  qed
qed

lemma exec_length:
  assumes "exec re s = Some m"
  shows "length m = Suc (ngroups (source re))"
proof -
  from exec_at_Some[OF assms[unfolded exec_def]] obtain j e rest cap where
    "(e, rest, cap) \<in> set (run (ignoreCase re) (source re) 0 (0 + j, drop j s, replicate (ngroups (source re)) None))"
    "m = Some (take (e - (0 + j)) (drop j s)) # cap" by blast
  with run_caps[OF this(1)] show ?thesis by simp
qed

text \<open>An expression anchored at both ends matches a string only as a whole.\<close>

lemma runp_anchored:
  assumes "plain X"
  shows "runp ic (Seq Bol (Seq X Eol)) (e, inp) \<noteq> [] \<longleftrightarrow> e = 0 \<and> inp \<in> lang ic X"
proof -
  have "set (runp ic (Seq Bol (Seq X Eol)) (e, inp)) =
        (if e = 0 then {y \<in> set (runp ic X (0, inp)). snd y = []} else {})"
    by (auto split: if_splits)
  also have "\<dots> = (if e = 0 \<and> inp \<in> lang ic X then {(length inp, [])} else {})"
    by (auto simp: runp_lang[OF assms] ends_def)
  finally have "set (runp ic (Seq Bol (Seq X Eol)) (e, inp)) \<noteq> {} \<longleftrightarrow> e = 0 \<and> inp \<in> lang ic X"
    by (simp del: runp.simps)
  then show ?thesis
    unfolding set_empty .
qed

lemma exec_anchored:
  assumes "plain X"
  shows "exec \<lparr>source = Seq Bol (Seq X Eol), ignoreCase = ic\<rparr> s \<noteq> None \<longleftrightarrow> s \<in> lang ic X"
proof -
  have "exec \<lparr>source = Seq Bol (Seq X Eol), ignoreCase = ic\<rparr> s = None
        \<longleftrightarrow> (\<forall>j \<le> length s. \<not> (j = 0 \<and> drop j s \<in> lang ic X))"
  proof -
    have "runp ic (Seq Bol (Seq X Eol)) (e, inp) = [] \<longleftrightarrow> \<not> (e = 0 \<and> inp \<in> lang ic X)" for e inp
      using runp_anchored[OF assms, of ic e inp] by blast
    then show ?thesis
      unfolding exec_def exec_at_None by (simp del: runp.simps)
  qed
  then show ?thesis by auto
qed

section \<open>The words of the pattern fragments\<close>

lemma of_char_slash: "(of_char ch :: nat) = 47 \<longleftrightarrow> ch = CHR ''/''"
proof -
  have "(of_char ch :: nat) = of_char (CHR ''/'') \<longleftrightarrow> ch = CHR ''/''"
    by (rule of_char_eq_iff)
  then show ?thesis by simp
qed

lemma canonicalize_slash:
  "canonicalize ic 47 = canonicalize ic (of_char ch) \<longleftrightarrow> ch = CHR ''/''"
proof -
  have "canonicalize ic 47 = 47" by (simp add: canonicalize_def)
  moreover have "canonicalize ic (of_char ch) = 47 \<longleftrightarrow> (of_char ch :: nat) = 47"
    by (auto simp: canonicalize_def)
  ultimately show ?thesis using of_char_slash[of ch] by auto
qed

lemma lang_slash [simp]: "lang ic rx_slash = {''/''}"
  using canonicalize_slash[of ic] by auto

lemma class_member_slash:
  "class_member ic [(CHR ''/'', CHR ''/'')] ch \<longleftrightarrow> ch = CHR ''/''"
proof (cases ic)
  case True
  then show ?thesis
    using canonicalize_slash[of ic ch] by (simp add: class_member_def)
next
  case False
  then show ?thesis
    using of_char_slash[of ch] by (auto simp: class_member_def in_range_def)
qed

lemma lang_not_slash: "lang ic (Cls True [(CHR ''/'', CHR ''/'')]) = {[ch] | ch. ch \<noteq> CHR ''/''}"
  by (simp add: class_member_slash)

lemma concat_singletons: "concat (map (\<lambda>c. [c]) s) = s"
  by (induction s) auto

lemma lang_run_repL: "lang ic rx_run = repL 1 None {[ch] | ch. ch \<noteq> CHR ''/''}"
  by (simp only: lang.simps(9) lang_not_slash)

lemma lang_run [simp]: "lang ic rx_run = {s. is_run s}"
proof (intro set_eqI iffI)
  fix s assume "s \<in> lang ic rx_run"
  then obtain ws where ws: "s = concat ws" "set ws \<subseteq> {[ch] | ch. ch \<noteq> CHR ''/''}" "1 \<le> length ws"
    unfolding lang_run_repL repL_def by blast
  then obtain w ws' where c: "ws = w # ws'" by (cases ws) auto
  with ws(2) obtain ch where "w = [ch]" by auto
  with ws(1) c have "s \<noteq> []" by simp
  moreover have "CHR ''/'' \<notin> set s"
  proof
    assume "CHR ''/'' \<in> set s"
    then obtain v where "v \<in> set ws" "CHR ''/'' \<in> set v" using ws(1) by auto
    with ws(2) show False by auto
  qed
  ultimately show "s \<in> {s. is_run s}" by (simp add: is_run_def)
next
  fix s assume "s \<in> {s. is_run s}"
  then have s: "s \<noteq> []" "CHR ''/'' \<notin> set s" by (auto simp: is_run_def)
  let ?ws = "map (\<lambda>c. [c]) s"
  have "s = concat ?ws" by (simp add: concat_singletons)
  moreover have "set ?ws \<subseteq> {[ch] | ch. ch \<noteq> CHR ''/''}" using s by auto
  moreover have "1 \<le> length ?ws" using s by (cases s) auto
  ultimately have "\<exists>ws. s = concat ws \<and> set ws \<subseteq> {[ch] | ch. ch \<noteq> CHR ''/''} \<and> 1 \<le> length ws"
    by blast
  then show "s \<in> lang ic rx_run"
    unfolding lang_run_repL repL_def by simp
qed

lemma lang_slash_run: "lang ic (Seq rx_slash rx_run) = {CHR ''/'' # r | r. is_run r}"
  unfolding lang.simps(6) lang_slash lang_run by (auto simp: conc_def)

lemma join_runs_Cons: "join_runs (r # rs) = r @ concat (map ((#) CHR ''/'') rs)"
  by (induction rs arbitrary: r) auto

lemma slash_runs_words:
  "set ws \<subseteq> {CHR ''/'' # r | r. is_run r} \<longleftrightarrow> (\<exists>rs. ws = map ((#) CHR ''/'') rs \<and> list_all is_run rs)"
proof
  assume "set ws \<subseteq> {CHR ''/'' # r | r. is_run r}"
  then have "ws = map ((#) CHR ''/'') (map tl ws) \<and> list_all is_run (map tl ws)"
    by (induction ws) auto
  then show "\<exists>rs. ws = map ((#) CHR ''/'') rs \<and> list_all is_run rs" by blast
next
  assume "\<exists>rs. ws = map ((#) CHR ''/'') rs \<and> list_all is_run rs"
  then show "set ws \<subseteq> {CHR ''/'' # r | r. is_run r}"
    by (auto simp: list_all_iff)
qed

lemma lang_more_runs:
  "lang ic (Rep mn mx (Seq rx_slash rx_run)) =
     {concat (map ((#) CHR ''/'') rs) | rs. list_all is_run rs \<and> mn \<le> length rs \<and>
         (\<forall>m. mx = Some m \<longrightarrow> length rs \<le> m)}"
proof -
  have "lang ic (Rep mn mx (Seq rx_slash rx_run)) =
        {concat ws | ws. (\<exists>rs. ws = map ((#) CHR ''/'') rs \<and> list_all is_run rs) \<and> mn \<le> length ws \<and>
            (\<forall>m. mx = Some m \<longrightarrow> length ws \<le> m)}"
    unfolding lang.simps(9) lang_slash_run repL_def slash_runs_words ..
  also have "\<dots> = {concat (map ((#) CHR ''/'') rs) | rs. list_all is_run rs \<and> mn \<le> length rs \<and>
         (\<forall>m. mx = Some m \<longrightarrow> length rs \<le> m)}"
    by (intro set_eqI iffI; clarsimp; metis length_map)
  finally show ?thesis .
qed

lemma lang_runs:
  "lang ic (Seq rx_run (Rep mn mx (Seq rx_slash rx_run))) =
     {join_runs rs | rs. list_all is_run rs \<and> Suc mn \<le> length rs \<and>
         (\<forall>m. mx = Some m \<longrightarrow> length rs \<le> Suc m)}"
proof (intro set_eqI iffI)
  fix s assume "s \<in> lang ic (Seq rx_run (Rep mn mx (Seq rx_slash rx_run)))"
  then obtain r rs where "s = r @ concat (map ((#) CHR ''/'') rs)" "is_run r" "list_all is_run rs"
    "mn \<le> length rs" "\<forall>m. mx = Some m \<longrightarrow> length rs \<le> m"
    unfolding lang.simps(6) lang_more_runs lang_run conc_def by blast
  then have "s = join_runs (r # rs)" "list_all is_run (r # rs)" "Suc mn \<le> length (r # rs)"
    "\<forall>m. mx = Some m \<longrightarrow> length (r # rs) \<le> Suc m"
    by (auto simp: join_runs_Cons)
  then show "s \<in> {join_runs rs | rs. list_all is_run rs \<and> Suc mn \<le> length rs \<and>
         (\<forall>m. mx = Some m \<longrightarrow> length rs \<le> Suc m)}"
    by blast
next
  fix s assume "s \<in> {join_runs rs | rs. list_all is_run rs \<and> Suc mn \<le> length rs \<and>
         (\<forall>m. mx = Some m \<longrightarrow> length rs \<le> Suc m)}"
  then obtain rs where rs: "s = join_runs rs" "list_all is_run rs" "Suc mn \<le> length rs"
    "\<forall>m. mx = Some m \<longrightarrow> length rs \<le> Suc m" by blast
  then obtain r rs' where [simp]: "rs = r # rs'" by (cases rs) auto
  have "s = r @ concat (map ((#) CHR ''/'') rs')" "is_run r" "list_all is_run rs'"
    "mn \<le> length rs'" "\<forall>m. mx = Some m \<longrightarrow> length rs' \<le> m"
    using rs by (auto simp: join_runs_Cons)
  then show "s \<in> lang ic (Seq rx_run (Rep mn mx (Seq rx_slash rx_run)))"
    unfolding lang.simps(6) lang_more_runs lang_run conc_def by blast
qed

lemma lang_slash_group: "lang ic (Seq rx_slash (Group X)) = {CHR ''/'' # v | v. v \<in> lang ic X}"
  using canonicalize_slash[of ic] by (auto simp: conc_def)

lemma lang_segmentRX: "lang ic (segmentRX isMulti multiCount) = param_words isMulti multiCount"
proof (cases isMulti)
  case False
  then have "segmentRX isMulti multiCount = Seq rx_slash (Group rx_run)"
    by (simp add: segmentRX_def)
  then have "lang ic (segmentRX isMulti multiCount) = {CHR ''/'' # v | v. v \<in> {s. is_run s}}"
    by (simp only: lang_slash_group lang_run)
  then show ?thesis
    unfolding param_words_def using False by simp
next
  case True
  show ?thesis
  proof (cases "is_truthy multiCount")
    case t: True
    then obtain n where n: "multiCount = Some (Suc n)"
      by (cases multiCount) (auto simp: is_truthy_def gr0_conv_Suc)
    have "segmentRX isMulti multiCount = Seq rx_slash (Group (Seq rx_run (Times n (Seq rx_slash rx_run))))"
      using True t n by (simp add: segmentRX_def)
    then have "lang ic (segmentRX isMulti multiCount) =
          {CHR ''/'' # v | v. v \<in> {join_runs rs | rs. list_all is_run rs \<and> Suc n \<le> length rs \<and>
             (\<forall>m. Some n = Some m \<longrightarrow> length rs \<le> Suc m)}}"
      by (simp only: lang_slash_group lang_runs)
    also have "\<dots> = {CHR ''/'' # join_runs rs | rs. length rs = Suc n \<and> list_all is_run rs}"
      by (auto simp: le_antisym) (metis order_refl)
    also have "\<dots> = param_words isMulti multiCount"
      unfolding param_words_def using True t n by simp
    finally show ?thesis .
  next
    case f: False
    have "segmentRX isMulti multiCount = Seq rx_slash (Group (Seq rx_run (Star (Seq rx_slash rx_run))))"
      using True f by (simp add: segmentRX_def)
    then have "lang ic (segmentRX isMulti multiCount) =
          {CHR ''/'' # v | v. v \<in> {join_runs rs | rs. list_all is_run rs \<and> Suc 0 \<le> length rs \<and>
             (\<forall>m. None = Some m \<longrightarrow> length rs \<le> Suc m)}}"
      by (simp only: lang_slash_group lang_runs)
    also have "\<dots> = {CHR ''/'' # join_runs rs | rs. rs \<noteq> [] \<and> list_all is_run rs}"
      by (auto simp: Suc_le_eq)
    also have "\<dots> = param_words isMulti multiCount"
      unfolding param_words_def using True f by simp
    finally show ?thesis .
  qed
qed

lemma plain_segmentRX [simp]: "plain (segmentRX isMulti multiCount)"
  by (simp add: segmentRX_def)

lemma ngroups_segmentRX [simp]: "ngroups (segmentRX isMulti multiCount) = 1"
  by (simp add: segmentRX_def)

section \<open>The loop over the segments\<close>

lemma split_not_Nil [simp]: "split sep s \<noteq> []"
  by (induction s) auto

lemma split_append_sep: "split sep (a @ sep # b) = split sep a @ split sep b"
proof (induction a)
  case Nil
  show ?case by simp
next
  case (Cons c a)
  show ?case
  proof (cases "c = sep")
    case True
    then show ?thesis using Cons by simp
  next
    case False
    have "hd (split sep a @ split sep b) = hd (split sep a)"
      "tl (split sep a @ split sep b) = tl (split sep a) @ split sep b"
      by simp_all
    then show ?thesis using False Cons by simp
  qed
qed

lemma split_no_sep: "sep \<notin> set b \<Longrightarrow> split sep b = [b]"
  by (induction b) auto

lemma split_snoc:
  "sep \<notin> set seg \<Longrightarrow> tl (split sep (t @ sep # seg)) = tl (split sep t) @ [seg]"
  by (simp add: split_append_sep split_no_sep)

lemma in_split_no_sep: "x \<in> set (split sep s) \<Longrightarrow> sep \<notin> set x"
proof (induction s arbitrary: x)
  case Nil
  then show ?case by simp
next
  case (Cons c s)
  show ?case
  proof (cases "c = sep")
    case True
    then show ?thesis using Cons by auto
  next
    case False
    have hd: "hd (split sep s) \<in> set (split sep s)" by simp
    have "x = c # hd (split sep s) \<or> x \<in> set (tl (split sep s))"
      using Cons.prems False by simp
    then show ?thesis
    proof
      assume "x = c # hd (split sep s)"
      then show ?thesis using Cons.IH[OF hd] False by auto
    next
      assume "x \<in> set (tl (split sep s))"
      then have "x \<in> set (split sep s)" by (metis list.set_sel(2) split_not_Nil)
      then show ?thesis by (rule Cons.IH)
    qed
  qed
qed

lemma segments_loop_append:
  "segments_loop tso (xs @ ys) g =
     (case segments_loop tso xs g of Inl e \<Rightarrow> Inl e | Inr g' \<Rightarrow> segments_loop tso ys g')"
  by (induction xs arbitrary: g) (auto split: sum.splits)

lemma lang_opt: "lang ic (Opt X) = insert [] (lang ic X)"
proof (intro set_eqI iffI)
  fix s assume "s \<in> lang ic (Opt X)"
  then obtain ws where ws: "s = concat ws" "set ws \<subseteq> lang ic X" "length ws \<le> 1"
    by (auto simp: repL_def)
  then show "s \<in> insert [] (lang ic X)"
    by (cases ws) auto
next
  fix s assume "s \<in> insert [] (lang ic X)"
  then consider "s = []" | "s \<in> lang ic X" by blast
  then show "s \<in> lang ic (Opt X)"
  proof cases
    case 1
    then have "s = concat []" "set [] \<subseteq> lang ic X" "length ([] :: string list) \<le> 1" by simp_all
    then show ?thesis unfolding lang.simps repL_def by blast
  next
    case 2
    then have "s = concat [s]" "set [s] \<subseteq> lang ic X" "length [s] \<le> 1" by simp_all
    then show ?thesis unfolding lang.simps repL_def by blast
  qed
qed

lemma plain_param_pathRX [simp]: "plain (param_pathRX tso isMulti multiCount isOptional)"
  by (simp add: param_pathRX_def)

lemma ngroups_param_pathRX [simp]: "ngroups (param_pathRX tso isMulti multiCount isOptional) = 1"
  by (simp add: param_pathRX_def)

lemma lang_param_pathRX:
  "lang ic (param_pathRX tso isMulti multiCount isOptional) =
     (if isOptional \<or> (isMulti \<and> \<not> is_truthy multiCount)
      then (if tso then {[], ''/''} else {''/''}) \<union> param_words isMulti multiCount
      else param_words isMulti multiCount)"
proof -
  have alt: "lang ic (Alt rx_slash (segmentRX isMulti multiCount)) = {''/''} \<union> param_words isMulti multiCount"
    by (simp only: lang.simps(7) lang_slash lang_segmentRX)
  show ?thesis
    unfolding param_pathRX_def
    by (auto simp only: lang_opt alt lang_segmentRX split: if_splits)
qed

lemma plain_escapeRegex [simp]: "plain (escapeRegex s)"
  by (induction s) auto

lemma ngroups_escapeRegex [simp]: "ngroups (escapeRegex s) = 0"
  by (induction s) auto

text \<open>What one round of the loop does to the three variables.\<close>

lemma segment_step_param:
  assumes "exec paramRegex seg = Some param" "segment_step tso seg g = Inr g'"
  shows "\<not> obj_truthy (params_obj g) (param_name param)"
    "params_obj g' = obj_set (param_name param) True (params_obj g)"
    "pathRX g' = Seq (pathRX g)
        (param_pathRX tso (param_isMulti param) (param_multiCount param) (param_isOptional param))"
    "fingerprint_acc g' = fingerprint_acc g @ param_fingerprint (param_isMulti param) (param_multiCount param)"
  using assms by (auto simp: segment_step_def Let_def split: if_splits)

lemma segment_step_literal:
  assumes "exec paramRegex seg = None" "segment_step tso seg g = Inr g'"
  shows "params_obj g' = params_obj g"
    "pathRX g' = Seq (pathRX g)
        (if seg \<noteq> [] then Seq rx_slash (escapeRegex seg)
         else if tso then Opt rx_slash else rx_slash)"
    "fingerprint_acc g' = fingerprint_acc g @ ''/'' @ seg"
  using assms by (auto simp: segment_step_def split: if_splits)

lemma segment_step_plain:
  assumes "segment_step tso seg g = Inr g'" "plain (pathRX g)"
  shows "plain (pathRX g')"
proof (cases "exec paramRegex seg")
  case None
  from segment_step_literal(2)[OF None assms(1)] assms(2) show ?thesis by simp
next
  case (Some param)
  from segment_step_param(3)[OF Some assms(1)] assms(2) show ?thesis by simp
qed

lemma segments_loop_plain:
  "segments_loop tso segs g = Inr g' \<Longrightarrow> plain (pathRX g) \<Longrightarrow> plain (pathRX g')"
proof (induction segs arbitrary: g)
  case Nil
  then show ?case by simp
next
  case (Cons seg segs)
  then obtain g1 where g1: "segment_step tso seg g = Inr g1" "segments_loop tso segs g1 = Inr g'"
    by (auto split: sum.splits)
  from Cons.IH[OF g1(2) segment_step_plain[OF g1(1) Cons.prems(2)]] show ?case .
qed

text \<open>The route \<open>_generateRegex\<close> builds, in terms of the final state of the loop.\<close>

lemma generateRegex_Inr:
  assumes "generateRegex settings t = Inr r"
  obtains g where
    "segments_loop (\<not> isTrailingSlashSensitive settings) (tl (split CHR ''/'' t)) initial = Inr g"
    "regexp r = \<lparr>source = Seq Bol (Seq (pathRX g) Eol), ignoreCase = (\<not> isCaseSensitive settings)\<rparr>"
    "params r = Object_keys (params_obj g)"
    "fingerprint r = (if isCaseSensitive settings then fingerprint_acc g
                      else toLowerCase (fingerprint_acc g))"
    "path r = t"
    "plain (pathRX g)"
proof -
  from assms obtain g where g:
    "segments_loop (\<not> isTrailingSlashSensitive settings) (tl (split CHR ''/'' t)) initial = Inr g"
    by (auto simp: generateRegex_def initial_def Let_def split: sum.splits)
  have "plain (pathRX g)"
    using segments_loop_plain[OF g] by (simp add: initial_def)
  moreover have "regexp r = \<lparr>source = Seq Bol (Seq (pathRX g) Eol), ignoreCase = (\<not> isCaseSensitive settings)\<rparr>"
    "params r = Object_keys (params_obj g)"
    "fingerprint r = (if isCaseSensitive settings then fingerprint_acc g
                      else toLowerCase (fingerprint_acc g))"
    "path r = t"
    using assms g by (auto simp: generateRegex_def initial_def Let_def split: if_splits)
  ultimately show ?thesis using g that by blast
qed

lemma test_lang:
  assumes "regexp r = \<lparr>source = Seq Bol (Seq X Eol), ignoreCase = ic\<rparr>" "plain X"
  shows "test r p \<longleftrightarrow> p \<in> lang ic X"
  unfolding test_def assms(1) by (rule exec_anchored[OF assms(2)])

lemma Route_generateRegex: "Route settings t = Inr r \<Longrightarrow> generateRegex settings t = Inr r"
  by (auto simp: Route_def split: if_splits)

section \<open>Captures of anchored fragments\<close>

lemma set_run_Bol:
  "set (run ic (Seq Bol R) k (e, inp, c)) = (if e = 0 then set (run ic R k (0, inp, c)) else {})"
  by simp

lemma set_run_Eol:
  "set (run ic (Seq A Eol) k x) = {y \<in> set (run ic A k x). fst (snd y) = []}"
  by (auto split: if_splits)

lemma set_run_slash:
  "set (run ic (Seq rx_slash B) k (e, inp, c)) =
     (case inp of [] \<Rightarrow> {} | ch # rest \<Rightarrow> if ch = CHR ''/'' then set (run ic B k (Suc e, rest, c)) else {})"
  using canonicalize_slash[of ic] by (auto split: list.splits)

lemma set_run_Group:
  "set (run ic (Group X) k (e, inp, c)) =
     (\<lambda>(e', inp', c'). (e', inp', c'[k := Some (take (e' - e) inp)])) ` set (run ic X (Suc k) (e, inp, c))"
  by simp

lemma run_slash_Group_anchored:
  assumes "(e', rest, cap) \<in> set (run ic (Seq Bol (Seq (Seq rx_slash (Group X)) Eol)) 0 (e, inp, [None]))"
  shows "e = 0 \<and> rest = [] \<and> e' = length inp \<and> inp \<noteq> [] \<and> cap = [Some (tl inp)]"
proof -
  from assms have e: "e = 0"
    and 1: "(e', rest, cap) \<in> set (run ic (Seq (Seq rx_slash (Group X)) Eol) 0 (0, inp, [None]))"
    unfolding set_run_Bol by (auto split: if_splits)
  from 1 have rest: "rest = []"
    and 2: "(e', rest, cap) \<in> set (run ic (Seq rx_slash (Group X)) 0 (0, inp, [None]))"
    unfolding set_run_Eol by auto
  from 2 obtain inp1 where inp: "inp = CHR ''/'' # inp1"
    and 3: "(e', rest, cap) \<in> set (run ic (Group X) 0 (Suc 0, inp1, [None]))"
    unfolding set_run_slash by (auto split: list.splits if_splits)
  from 3 obtain c where 4: "(e', rest, c) \<in> set (run ic X (Suc 0) (Suc 0, inp1, [None]))"
    and cap: "cap = c[0 := Some (take (e' - Suc 0) inp1)]"
    unfolding set_run_Group by auto
  from run_suffix[OF 4] rest have e': "e' = Suc (length inp1)" by auto
  from run_caps[OF 4] have "length c = 1" by simp
  then obtain v where "c = [v]" by (cases c) auto
  with cap e' have "cap = [Some inp1]" by simp
  with e rest e' inp show ?thesis by simp
qed

lemma fragment_exec_slash_Group:
  assumes "plain X" "ngroups X = 0"
  shows "fragment_exec ic (Seq rx_slash (Group X)) s =
           (if s \<in> lang ic (Seq rx_slash (Group X)) then Some [Some s, Some (tl s)] else None)"
proof (cases "s \<in> lang ic (Seq rx_slash (Group X))")
  case False
  have "plain (Seq rx_slash (Group X))" using assms by simp
  from exec_anchored[OF this, of ic s] False show ?thesis
    by (simp add: fragment_exec_def)
next
  case True
  let ?r = "Seq Bol (Seq (Seq rx_slash (Group X)) Eol)"
  have "plain (Seq rx_slash (Group X))" using assms by simp
  from exec_anchored[OF this, of ic s] True obtain m where
    m: "exec \<lparr>source = ?r, ignoreCase = ic\<rparr> s = Some m" by auto
  then have "exec_at ic ?r 0 s = Some m" by (simp add: exec_def)
  from exec_at_Some[OF this] obtain j e rest cap where
    mem: "(e, rest, cap) \<in> set (run ic ?r 0 (0 + j, drop j s, replicate (ngroups ?r) None))"
    and mm: "m = Some (take (e - (0 + j)) (drop j s)) # cap" by blast
  have "replicate (ngroups ?r) None = [None :: string option]" using assms by simp
  with mem have "(e, rest, cap) \<in> set (run ic ?r 0 (j, drop j s, [None]))"
    by (simp del: run.simps)
  from run_slash_Group_anchored[OF this] have "j = 0" "e = length (drop j s)" "cap = [Some (tl (drop j s))]"
    by auto
  with mm have "m = [Some s, Some (tl s)]" by simp
  with m True show ?thesis by (simp add: fragment_exec_def)
qed

lemma fragment_exec_segmentRX:
  "fragment_exec ic (segmentRX isMulti multiCount) s =
     (if s \<in> param_words isMulti multiCount then Some [Some s, Some (tl s)] else None)"
proof -
  have "\<exists>X. segmentRX isMulti multiCount = Seq rx_slash (Group X) \<and> plain X \<and> ngroups X = 0"
    by (cases isMulti; cases "is_truthy multiCount") (simp_all add: segmentRX_def)
  then obtain X where X: "segmentRX isMulti multiCount = Seq rx_slash (Group X)" "plain X" "ngroups X = 0"
    by blast
  show ?thesis
    using fragment_exec_slash_Group[OF X(2,3), of ic s] lang_segmentRX[of ic isMulti multiCount]
    unfolding X(1) by simp
qed

section \<open>A parameter as the last segment\<close>

lemma test_snoc_param:
  assumes seg: "CHR ''/'' \<notin> set seg"
    and r0: "generateRegex settings t0 = Inr r0"
    and r: "generateRegex settings (t0 @ CHR ''/'' # seg) = Inr r"
    and param: "exec paramRegex seg = Some param"
  shows "test r p \<longleftrightarrow>
     (\<exists>p0 u. p = p0 @ u \<and> test r0 p0 \<and>
        u \<in> lang (\<not> isCaseSensitive settings)
              (param_pathRX (\<not> isTrailingSlashSensitive settings) (param_isMulti param)
                 (param_multiCount param) (param_isOptional param)))"
proof -
  let ?tso = "\<not> isTrailingSlashSensitive settings"
  let ?ic = "\<not> isCaseSensitive settings"
  let ?unit = "param_pathRX ?tso (param_isMulti param) (param_multiCount param) (param_isOptional param)"
  from r0 obtain g0 where g0: "segments_loop ?tso (tl (split CHR ''/'' t0)) initial = Inr g0"
    "regexp r0 = \<lparr>source = Seq Bol (Seq (pathRX g0) Eol), ignoreCase = ?ic\<rparr>" "plain (pathRX g0)"
    by (rule generateRegex_Inr)
  from r obtain g where g: "segments_loop ?tso (tl (split CHR ''/'' (t0 @ CHR ''/'' # seg))) initial = Inr g"
    "regexp r = \<lparr>source = Seq Bol (Seq (pathRX g) Eol), ignoreCase = ?ic\<rparr>" "plain (pathRX g)"
    by (rule generateRegex_Inr)
  have "segment_step ?tso seg g0 = Inr g"
    using g(1) g0(1) by (simp add: split_snoc[OF seg] segments_loop_append split: sum.splits)
  from segment_step_param(3)[OF param this] have rx: "pathRX g = Seq (pathRX g0) ?unit" .
  have "test r p \<longleftrightarrow> p \<in> conc (lang ?ic (pathRX g0)) (lang ?ic ?unit)"
    using test_lang[OF g(2) g(3), of p] by (simp only: rx lang.simps(6))
  also have "\<dots> \<longleftrightarrow> (\<exists>p0 u. p = p0 @ u \<and> p0 \<in> lang ?ic (pathRX g0) \<and> u \<in> lang ?ic ?unit)"
    by (auto simp: conc_def)
  also have "\<dots> \<longleftrightarrow> (\<exists>p0 u. p = p0 @ u \<and> test r0 p0 \<and> u \<in> lang ?ic ?unit)"
    using test_lang[OF g0(2) g0(3)] by simp
  finally show ?thesis .
qed

section \<open>The parameter names of a route\<close>

lemma run_SeqD:
  "z \<in> set (run ic (Seq A B) k x) \<Longrightarrow>
     \<exists>y. y \<in> set (run ic A k x) \<and> z \<in> set (run ic B (k + ngroups A) y)"
  by auto

lemma lang_Plus_Cls_nonempty: "u \<in> lang ic (Plus (Cls neg A)) \<Longrightarrow> u \<noteq> []"
proof -
  assume "u \<in> lang ic (Plus (Cls neg A))"
  then obtain ws where ws: "u = concat ws" "set ws \<subseteq> lang ic (Cls neg A)" "1 \<le> length ws"
    by (auto simp: repL_def)
  then obtain w ws' where c: "ws = w # ws'" by (cases ws) auto
  with ws(2) have "w \<noteq> []" by auto
  with ws(1) c show ?thesis by simp
qed

lemma run_word:
  assumes "(e', inp', cap') \<in> set (run ic r k (e, inp, cap))" "plain r"
  shows "\<exists>u. u \<in> lang ic r \<and> inp = u @ inp' \<and> e' = e + length u"
proof -
  from in_run_pos[OF assms(1)] have "(e', inp') \<in> set (runp ic r (e, inp))" by simp
  then show ?thesis unfolding runp_lang[OF assms(2)] ends_def by auto
qed

text \<open>The first group of \<open>paramRegex\<close> captures a non-empty name.\<close>

lemma paramRegex_name:
  assumes "exec paramRegex seg = Some param"
  shows "length param = 5 \<and> (\<exists>name. param ! 1 = Some name \<and> name \<noteq> [])"
proof -
  define REST where "REST = Seq (Opt (Seq (Group (Chr CHR ''*'')) (Opt (Group (Plus rx_d)))))
        (Seq (Opt (Group (Chr CHR ''?''))) (Seq (Chr CHR ''}'') Eol))"
  define r where "r = Seq Bol (Seq (Chr CHR ''{'') (Seq (Group (Plus rx_w)) REST))"
  have src: "source paramRegex = r" "ignoreCase paramRegex = False"
    by (simp_all add: paramRegex_def regexp_of_def r_def REST_def)
  have ng: "ngroups r = 4" by (simp add: r_def REST_def)
  from assms have "exec_at False r 0 seg = Some param" by (simp add: exec_def src)
  from exec_at_Some[OF this] obtain j e rest cap where
    mem: "(e, rest, cap) \<in> set (run False r 0 (0 + j, drop j seg, replicate (ngroups r) None))"
    and m: "param = Some (take (e - (0 + j)) (drop j seg)) # cap" by blast
  let ?c0 = "replicate 4 (None :: string option)"
  from mem have mem': "(e, rest, cap) \<in> set (run False r 0 (j, drop j seg, ?c0))"
    by (simp add: ng del: run.simps)
  from run_SeqD[OF mem'[unfolded r_def]] obtain x1 where
    x1: "x1 \<in> set (run False Bol 0 (j, drop j seg, ?c0))"
    and 1: "(e, rest, cap) \<in> set (run False (Seq (Chr CHR ''{'') (Seq (Group (Plus rx_w)) REST)) (0 + ngroups Bol) x1)"
    by blast
  from run_SeqD[OF 1] obtain x2 where
    x2: "x2 \<in> set (run False (Chr CHR ''{'') (0 + ngroups Bol) x1)"
    and 2: "(e, rest, cap) \<in> set (run False (Seq (Group (Plus rx_w)) REST) (0 + ngroups Bol + ngroups (Chr CHR ''{'')) x2)"
    by blast
  from run_SeqD[OF 2] obtain x3 where
    y3: "x3 \<in> set (run False (Group (Plus rx_w)) (0 + ngroups Bol + ngroups (Chr CHR ''{'')) x2)"
    and r3: "(e, rest, cap) \<in> set (run False REST (0 + ngroups Bol + ngroups (Chr CHR ''{'') + ngroups (Group (Plus rx_w))) x3)"
    by blast
  have x3: "x3 \<in> set (run False (Group (Plus rx_w)) 0 x2)"
    using y3 by (simp del: run.simps)
  have 3: "(e, rest, cap) \<in> set (run False REST 1 x3)"
    using r3 by (simp del: run.simps)
  obtain e1 i1 c1 where X1: "x1 = (e1, i1, c1)" by (cases x1)
  obtain e2 i2 c2 where X2: "x2 = (e2, i2, c2)" by (cases x2)
  obtain e3 i3 c3 where X3: "x3 = (e3, i3, c3)" by (cases x3)
  have l1: "length c1 = 4" using run_caps[OF x1[unfolded X1]] by (simp del: run.simps)
  have l2: "length c2 = 4" using run_caps[OF x2[unfolded X1 X2]] l1 by (simp del: run.simps)
  from x3[unfolded X2 X3 set_run_Group] obtain c where
    g: "(e3, i3, c) \<in> set (run False (Plus rx_w) (Suc 0) (e2, i2, c2))"
    and c3: "c3 = c[0 := Some (take (e3 - e2) i2)]"
    by (auto simp del: run.simps)
  have lc: "length c = 4" using run_caps[OF g] l2 by (simp del: run.simps)
  have "plain (Plus rx_w)" by simp
  from run_word[OF g this] obtain u where u: "u \<in> lang False (Plus rx_w)" "i2 = u @ i3" "e3 = e2 + length u"
    by blast
  have "u \<noteq> []" using lang_Plus_Cls_nonempty[OF u(1)] .
  have c30: "c3 ! 0 = Some u" using c3 lc u by simp
  have "cap ! 0 = c3 ! 0" "length cap = length c3"
    using run_caps[OF 3[unfolded X3]] by (simp_all del: run.simps)
  with c30 c3 lc m \<open>u \<noteq> []\<close> show ?thesis by simp
qed

lemma param_name_nonempty:
  "exec paramRegex seg = Some param \<Longrightarrow> param_name param \<noteq> []"
  using paramRegex_name[of seg param] by (auto simp: param_name_def ToString_def)

text \<open>\<open>Object.keys\<close> permutes the keys.\<close>

lemma map_snd_map_filter_index:
  "map snd (List.map_filter (\<lambda>k. map_option (\<lambda>i. (i, k)) (array_index k)) ks)
     = filter (\<lambda>k. array_index k \<noteq> None) ks"
  by (induction ks) (simp_all add: map_filter_simps split: option.splits)

lemma mset_Object_keys: "mset (Object_keys ps) = mset (map fst ps)"
proof -
  let ?ks = "map fst ps"
  let ?xs = "List.map_filter (\<lambda>k. map_option (\<lambda>i. (i, k)) (array_index k)) ?ks"
  have "mset (map snd (sort_key fst ?xs)) = mset (map snd ?xs)"
    by simp
  also have "\<dots> = mset (filter (\<lambda>k. array_index k \<noteq> None) ?ks)"
    by (simp only: map_snd_map_filter_index)
  finally have "mset (Object_keys ps) =
      mset (filter (\<lambda>k. array_index k \<noteq> None) ?ks) + mset (filter (\<lambda>k. \<not> array_index k \<noteq> None) ?ks)"
    unfolding Object_keys_def by simp
  then show ?thesis by (simp only: mset_filter multiset_partition[symmetric])
qed

lemma length_Object_keys [simp]: "length (Object_keys ps) = length ps"
  using mset_Object_keys[of ps] by (metis length_map size_mset)

lemma set_Object_keys [simp]: "set (Object_keys ps) = fst ` set ps"
  using mset_Object_keys[of ps] by (metis set_map set_mset_mset)

lemma distinct_Object_keys [simp]: "distinct (Object_keys ps) = distinct (map fst ps)"
  using mset_Object_keys[of ps] by (metis mset_eq_imp_distinct_iff)

lemma obj_set_new: "k \<notin> fst ` set ps \<Longrightarrow> obj_set k v ps = ps @ [(k, v)]"
  by (induction ps) auto

lemma not_truthy_new:
  assumes "\<forall>kv \<in> set ps. snd kv" "\<not> obj_truthy ps k"
  shows "k \<notin> fst ` set ps"
proof
  assume "k \<in> fst ` set ps"
  then obtain v where "map_of ps k = Some v" by (metis domD dom_map_of_conv_image_fst)
  moreover from this have "(k, v) \<in> set ps" by (rule map_of_SomeD)
  ultimately show False using assms by (auto simp: obj_truthy_def)
qed

lemma segment_step_names_ok:
  assumes "segment_step tso seg g = Inr g'" "names_ok g"
  shows "names_ok g'"
proof (cases "exec paramRegex seg")
  case None
  from segment_step_literal[OF None assms(1)] assms(2) show ?thesis
    by (auto simp: names_ok_def)
next
  case (Some param)
  note st = segment_step_param[OF Some assms(1)]
  have new: "param_name param \<notin> fst ` set (params_obj g)"
    using not_truthy_new[OF _ st(1)] assms(2) by (auto simp: names_ok_def)
  have "params_obj g' = params_obj g @ [(param_name param, True)]"
    using st(2) obj_set_new[OF new] by simp
  with st(3) new param_name_nonempty[OF Some] assms(2) show ?thesis
    by (auto simp: names_ok_def)
qed

lemma segments_loop_names_ok:
  "segments_loop tso segs g = Inr g' \<Longrightarrow> names_ok g \<Longrightarrow> names_ok g'"
proof (induction segs arbitrary: g)
  case Nil
  then show ?case by simp
next
  case (Cons seg segs)
  then obtain g1 where g1: "segment_step tso seg g = Inr g1" "segments_loop tso segs g1 = Inr g'"
    by (auto split: sum.splits)
  from Cons.IH[OF g1(2) segment_step_names_ok[OF g1(1) Cons.prems(2)]] show ?case .
qed

lemma route_params:
  assumes "generateRegex settings t = Inr r"
  shows "length (params r) = ngroups (source (regexp r))" "distinct (params r)" "[] \<notin> set (params r)"
proof -
  from assms obtain g where g:
    "segments_loop (\<not> isTrailingSlashSensitive settings) (tl (split CHR ''/'' t)) initial = Inr g"
    "regexp r = \<lparr>source = Seq Bol (Seq (pathRX g) Eol), ignoreCase = (\<not> isCaseSensitive settings)\<rparr>"
    "params r = Object_keys (params_obj g)"
    by (rule generateRegex_Inr)
  have "names_ok initial" by (simp add: names_ok_def initial_def)
  from segments_loop_names_ok[OF g(1) this] have ok: "names_ok g" .
  show "length (params r) = ngroups (source (regexp r))"
    using ok g(2,3) by (simp add: names_ok_def)
  show "distinct (params r)" using ok g(3) by (simp add: names_ok_def)
  show "[] \<notin> set (params r)" using ok g(3) by (auto simp: names_ok_def)
qed

section \<open>The loop of match\<close>

text \<open>
  When every capture has a non-empty key, the loop fails exactly when some capture fails to
  decode, and otherwise stores the decoded captures under their keys, in order.
\<close>

lemma match_loop_fails:
  assumes "\<forall>j < length vs. i - 1 + j < length ps \<and> ps ! (i - 1 + j) \<noteq> []" "0 < i"
    and "\<exists>v \<in> set vs. \<exists>e. decode_capture v = Inl e"
  shows "fst (match_loop ps i vs req) = False"
  using assms
proof (induction vs arbitrary: i req)
  case Nil
  then show ?case by simp
next
  case (Cons v vs)
  have key: "i - 1 < length ps \<and> ps ! (i - 1) \<noteq> []"
    using Cons.prems(1)[rule_format, of 0] by simp
  have rest: "\<forall>j < length vs. Suc i - 1 + j < length ps \<and> ps ! (Suc i - 1 + j) \<noteq> []"
  proof (intro allI impI)
    fix j assume "j < length vs"
    then show "Suc i - 1 + j < length ps \<and> ps ! (Suc i - 1 + j) \<noteq> []"
      using Cons.prems(1)[rule_format, of "Suc j"] Cons.prems(2) by simp
  qed
  show ?case
  proof (cases "decode_capture v")
    case (Inl e)
    then show ?thesis using key by simp
  next
    case (Inr d)
    with Cons.prems(3) have "\<exists>v \<in> set vs. \<exists>e. decode_capture v = Inl e" by auto
    from Cons.IH[OF rest _ this] Inr key show ?thesis by simp
  qed
qed

lemma match_loop_succeeds:
  assumes "\<forall>j < length vs. i - 1 + j < length ps \<and> ps ! (i - 1 + j) \<noteq> []" "0 < i"
    and "match_loop ps i vs req = (True, req')"
  shows "\<exists>ds. map decode_capture vs = map Inr ds \<and>
           req_path req' = req_path req \<and>
           paramsArray req' = paramsArray req @ ds \<and>
           req_params req' = foldl (\<lambda>ob (k, d). obj_set k d ob) (req_params req)
                                (zip (take (length vs) (drop (i - 1) ps)) ds)"
  using assms
proof (induction vs arbitrary: i req)
  case Nil
  then show ?case by simp
next
  case (Cons v vs)
  have key: "i - 1 < length ps \<and> ps ! (i - 1) \<noteq> []"
    using Cons.prems(1)[rule_format, of 0] by simp
  have rest: "\<forall>j < length vs. Suc i - 1 + j < length ps \<and> ps ! (Suc i - 1 + j) \<noteq> []"
  proof (intro allI impI)
    fix j assume "j < length vs"
    then show "Suc i - 1 + j < length ps \<and> ps ! (Suc i - 1 + j) \<noteq> []"
      using Cons.prems(1)[rule_format, of "Suc j"] Cons.prems(2) by simp
  qed
  show ?case
  proof (cases "decode_capture v")
    case (Inl e)
    then show ?thesis using key Cons.prems(3) by simp
  next
    case (Inr d)
    let ?req1 = "req\<lparr>req_params := obj_set (ps ! (i - 1)) d (req_params req),
                      paramsArray := paramsArray req @ [d]\<rparr>"
    have "match_loop ps (Suc i) vs ?req1 = (True, req')"
      using Cons.prems(3) Inr key by (simp add: Let_def)
    from Cons.IH[OF rest _ this] obtain ds where ds: "map decode_capture vs = map Inr ds"
      "req_path req' = req_path req" "paramsArray req' = paramsArray req @ d # ds"
      "req_params req' = foldl (\<lambda>ob (k, d). obj_set k d ob) (obj_set (ps ! (i - 1)) d (req_params req))
                                (zip (take (length vs) (drop (Suc i - 1) ps)) ds)"
      by auto
    have dr: "drop (i - Suc 0) ps = ps ! (i - Suc 0) # drop i ps"
      using key Cons.prems(2) Cons_nth_drop_Suc[of "i - 1" ps] by simp
    show ?thesis
      by (rule exI[of _ "d # ds"]) (simp add: ds Inr dr)
  qed
qed

section \<open>match on a generated route\<close>

lemma foldl_obj_set_new:
  assumes "distinct ks" "set ks \<inter> fst ` set ob = {}" "length ks = length ds"
  shows "foldl (\<lambda>ob (k, d). obj_set k d ob) ob (zip ks ds) = ob @ zip ks ds"
  using assms
proof (induction ks arbitrary: ob ds)
  case Nil
  then show ?case by simp
next
  case (Cons k ks)
  then obtain d ds' where ds: "ds = d # ds'" by (cases ds) auto
  have new: "k \<notin> fst ` set ob" using Cons.prems(2) by auto
  have "set ks \<inter> fst ` set (ob @ [(k, d)]) = {}"
    using Cons.prems(1,2) by auto
  from Cons.IH[OF _ this, of ds'] Cons.prems(1,3) ds obj_set_new[OF new, of d]
  show ?case by simp
qed

lemma match_generated:
  assumes "generateRegex settings t = Inr r" "exec (regexp r) (req_path req) = Some m"
  shows "length m = Suc (length (params r))"
    and "match r req = match_loop (params r) 1 (tl m) (req\<lparr>req_params := [], paramsArray := []\<rparr>)"
    and "\<forall>j < length (tl m). (1::nat) - 1 + j < length (params r) \<and> params r ! (1 - 1 + j) \<noteq> []"
proof -
  show len: "length m = Suc (length (params r))"
    using exec_length[OF assms(2)] route_params(1)[OF assms(1)] by simp
  show "match r req = match_loop (params r) 1 (tl m) (req\<lparr>req_params := [], paramsArray := []\<rparr>)"
  proof (cases "params r")
    case Nil
    with len have "tl m = []" by (cases m) auto
    with Nil assms(2) show ?thesis by (simp add: match_def)
  next
    case (Cons k ks)
    with assms(2) show ?thesis by (simp add: match_def)
  qed
  show "\<forall>j < length (tl m). (1::nat) - 1 + j < length (params r) \<and> params r ! (1 - 1 + j) \<noteq> []"
    using len route_params(3)[OF assms(1)] by (auto simp: in_set_conv_nth)
qed

section \<open>Fingerprints\<close>

lemma segment_step_fingerprint:
  assumes "segment_step tso seg g = Inr g'"
  shows "fingerprint_acc g' = fingerprint_acc g @ shape_fingerprint (segment_shape seg)"
proof (cases "exec paramRegex seg")
  case None
  from segment_step_literal(3)[OF None assms] None show ?thesis
    by (simp add: segment_shape_def)
next
  case (Some param)
  from segment_step_param(4)[OF Some assms] Some show ?thesis
    by (simp add: segment_shape_def param_fingerprint_def)
qed

lemma segments_loop_fingerprint:
  "segments_loop tso segs g = Inr g' \<Longrightarrow>
     fingerprint_acc g' = fingerprint_acc g @ concat (map (shape_fingerprint \<circ> segment_shape) segs)"
proof (induction segs arbitrary: g)
  case Nil
  then show ?case by simp
next
  case (Cons seg segs)
  then obtain g1 where g1: "segment_step tso seg g = Inr g1" "segments_loop tso segs g1 = Inr g'"
    by (auto split: sum.splits)
  from Cons.IH[OF g1(2)] segment_step_fingerprint[OF g1(1)] show ?case by simp
qed

lemma fingerprint_shape:
  assumes "generateRegex settings t = Inr r"
  shows "fingerprint r = case_fold settings (concat (map shape_fingerprint (template_shape t)))"
proof -
  from assms obtain g where g:
    "segments_loop (\<not> isTrailingSlashSensitive settings) (tl (split CHR ''/'' t)) initial = Inr g"
    "fingerprint r = (if isCaseSensitive settings then fingerprint_acc g
                      else toLowerCase (fingerprint_acc g))"
    by (rule generateRegex_Inr)
  from segments_loop_fingerprint[OF g(1)] g(2) show ?thesis
    by (simp add: initial_def case_fold_def template_shape_def)
qed

lemma lower_char_slash: "lower_char c = CHR ''/'' \<longleftrightarrow> c = CHR ''/''"
proof -
  have "char_of (n + 32 :: nat) \<noteq> CHR ''/''" if "65 \<le> n \<and> n \<le> 90 \<or> 192 \<le> n \<and> n \<le> 222" for n
  proof
    assume "char_of (n + 32) = CHR ''/''"
    then have "(of_char (char_of (n + 32)) :: nat) = of_char (CHR ''/'')" by simp
    then have "(n + 32) mod 256 = 47" by (simp add: of_char_of)
    with that show False by auto
  qed
  then show ?thesis
    by (auto simp: lower_char_def Let_def)
qed

lemma case_fold_slash_free: "CHR ''/'' \<notin> set s \<Longrightarrow> CHR ''/'' \<notin> set (case_fold settings s)"
proof -
  assume s: "CHR ''/'' \<notin> set s"
  have "CHR ''/'' \<notin> set (map lower_char s)"
  proof
    assume "CHR ''/'' \<in> set (map lower_char s)"
    then obtain c where "c \<in> set s" "lower_char c = CHR ''/''" by auto
    with s show False by (simp add: lower_char_slash)
  qed
  with s show ?thesis by (simp add: case_fold_def toLowerCase_def)
qed

lemma case_fold_Nil [simp]: "case_fold settings [] = []"
  by (simp add: case_fold_def toLowerCase_def)

lemma case_fold_append: "case_fold settings (a @ b) = case_fold settings a @ case_fold settings b"
  by (simp add: case_fold_def toLowerCase_def)

lemma case_fold_Cons_slash: "case_fold settings (CHR ''/'' # s) = CHR ''/'' # case_fold settings s"
  using lower_char_slash[of "CHR ''/''"] by (simp add: case_fold_def toLowerCase_def)

lemma case_fold_concat:
  "case_fold settings (concat xs) = concat (map (case_fold settings) xs)"
  by (induction xs) (simp_all add: case_fold_append)

lemma folded_starts_slash:
  "concat (map (\<lambda>x. case_fold settings (shape_fingerprint x)) xs) = [] \<or>
   hd (concat (map (\<lambda>x. case_fold settings (shape_fingerprint x)) xs)) = CHR ''/''"
proof (induction xs)
  case Nil
  show ?case by simp
next
  case (Cons x xs)
  obtain k opt where x: "x = (k, opt)" by (cases x)
  have fs: "case_fold settings ''/?'' = ''/?''" "case_fold settings ''/?*'' = ''/?*''"
    by (simp_all add: case_fold_def toLowerCase_def lower_char_def char_of_nat_eval)
  show ?case
  proof (cases k)
    case (Literal s)
    then show ?thesis using x by (simp add: case_fold_Cons_slash)
  next
    case Single
    then show ?thesis using x fs by simp
  next
    case (MultiFixed n)
    show ?thesis
    proof (cases n)
      case 0
      then show ?thesis using x MultiFixed Cons by simp
    next
      case (Suc m)
      then show ?thesis using x MultiFixed by (simp add: case_fold_Cons_slash)
    qed
  next
    case MultiUnbounded
    then show ?thesis using x fs by simp
  qed
qed

lemma slash_free_prefix:
  assumes "a @ R1 = b @ R2" "CHR ''/'' \<notin> set a" "CHR ''/'' \<notin> set b"
    "R1 = [] \<or> hd R1 = CHR ''/''" "R2 = [] \<or> hd R2 = CHR ''/''"
  shows "a = b \<and> R1 = R2"
proof -
  have tw: "takeWhile (\<lambda>c. c \<noteq> CHR ''/'') (a @ R) = a" if "CHR ''/'' \<notin> set a" "R = [] \<or> hd R = CHR ''/''" for a R
  proof -
    have "takeWhile (\<lambda>c. c \<noteq> CHR ''/'') R = []" using that(2) by (cases R) auto
    with that(1) show ?thesis by (induction a) auto
  qed
  have "a = takeWhile (\<lambda>c. c \<noteq> CHR ''/'') (a @ R1)" using tw[OF assms(2,4)] by simp
  also have "\<dots> = takeWhile (\<lambda>c. c \<noteq> CHR ''/'') (b @ R2)" using assms(1) by simp
  also have "\<dots> = b" using tw[OF assms(3,5)] .
  finally have "a = b" .
  with assms(1) show ?thesis by simp
qed

lemma fingerprints_of_same_parameters:
  assumes "map erase_text xs = map erase_text ys"
    and "\<forall>s \<in> set (literal_texts xs). CHR ''/'' \<notin> set s"
    and "\<forall>s \<in> set (literal_texts ys). CHR ''/'' \<notin> set s"
  shows "concat (map (\<lambda>x. case_fold settings (shape_fingerprint x)) xs)
           = concat (map (\<lambda>x. case_fold settings (shape_fingerprint x)) ys)
         \<longleftrightarrow> map (case_fold settings) (literal_texts xs) = map (case_fold settings) (literal_texts ys)"
  using assms
proof (induction xs arbitrary: ys)
  case Nil
  then show ?case by simp
next
  case (Cons x xs)
  then obtain y ys' where ys: "ys = y # ys'" by (cases ys) auto
  obtain k opt where x: "x = (k, opt)" by (cases x)
  obtain k' opt' where y: "y = (k', opt')" by (cases y)
  have e: "erase_text x = erase_text y" "map erase_text xs = map erase_text ys'"
    using Cons.prems(1) ys by simp_all
  let ?F = "\<lambda>x. case_fold settings (shape_fingerprint x)"
  show ?case
  proof (cases k)
    case (Literal s)
    with e(1) x y obtain s' where k': "k' = Literal s'" by (cases k') auto
    have sf: "CHR ''/'' \<notin> set s" "CHR ''/'' \<notin> set s'"
      using Cons.prems(2,3) x y ys Literal k' by auto
    have IH: "concat (map ?F xs) = concat (map ?F ys')
         \<longleftrightarrow> map (case_fold settings) (literal_texts xs) = map (case_fold settings) (literal_texts ys')"
      using Cons.IH[OF e(2)] Cons.prems(2,3) x y ys Literal k' by simp
    have "concat (map ?F (x # xs)) = concat (map ?F ys)
          \<longleftrightarrow> case_fold settings s @ concat (map ?F xs) = case_fold settings s' @ concat (map ?F ys')"
      using x y ys Literal k' by (simp add: case_fold_Cons_slash)
    also have "\<dots> \<longleftrightarrow> case_fold settings s = case_fold settings s' \<and> concat (map ?F xs) = concat (map ?F ys')"
      using slash_free_prefix[OF _ case_fold_slash_free[OF sf(1), of settings]
              case_fold_slash_free[OF sf(2), of settings]
              folded_starts_slash[of settings xs] folded_starts_slash[of settings ys']]
      by auto
    finally show ?thesis using IH x y ys Literal k' by simp
  next
    case Single
    with e(1) x y have "y = x" by (cases k') auto
    then show ?thesis using Cons.IH[OF e(2)] Cons.prems(2,3) x ys Single by simp
  next
    case (MultiFixed n)
    with e(1) x y have "y = x" by (cases k') auto
    then show ?thesis using Cons.IH[OF e(2)] Cons.prems(2,3) x ys MultiFixed by simp
  next
    case MultiUnbounded
    with e(1) x y have "y = x" by (cases k') auto
    then show ?thesis using Cons.IH[OF e(2)] Cons.prems(2,3) x ys MultiUnbounded by simp
  qed
qed

lemma literal_texts_slash_free: "s \<in> set (literal_texts (template_shape t)) \<Longrightarrow> CHR ''/'' \<notin> set s"
proof -
  have "s \<in> set (literal_texts (map segment_shape segs)) \<Longrightarrow> s \<in> set segs" for segs
  proof (induction segs)
    case Nil
    then show ?case by simp
  next
    case (Cons seg segs)
    then show ?case
      by (cases "exec paramRegex seg") (auto simp: segment_shape_def split: if_splits)
  qed
  moreover assume "s \<in> set (literal_texts (template_shape t))"
  ultimately have "s \<in> set (tl (split CHR ''/'' t))" by (simp add: template_shape_def)
  then have "s \<in> set (split CHR ''/'' t)" by (metis list.set_sel(2) split_not_Nil)
  then show ?thesis by (rule in_split_no_sep)
qed

section \<open>The validation patterns and the grammar\<close>

lemma lang_Chr_False [simp]: "lang False (Chr c) = {[c]}"
  by (auto simp: canonicalize_def)

lemma in_lang_Seq: "u \<in> lang ic a \<Longrightarrow> v \<in> lang ic b \<Longrightarrow> u @ v \<in> lang ic (Seq a b)"
  by (auto simp: conc_def)

lemma in_lang_Star: "set ws \<subseteq> lang ic r \<Longrightarrow> concat ws \<in> lang ic (Star r)"
  by (auto simp: repL_def)

lemma in_lang_Plus: "set ws \<subseteq> lang ic r \<Longrightarrow> ws \<noteq> [] \<Longrightarrow> concat ws \<in> lang ic (Plus r)"
proof -
  assume "set ws \<subseteq> lang ic r" "ws \<noteq> []"
  then have "set ws \<subseteq> lang ic r \<and> 1 \<le> length ws \<and> (\<forall>m. (None :: nat option) = Some m \<longrightarrow> length ws \<le> m)"
    by (cases ws) auto
  then show ?thesis unfolding lang.simps repL_def by blast
qed

lemma in_lang_Opt: "u = [] \<or> u \<in> lang ic r \<Longrightarrow> u \<in> lang ic (Opt r)"
  unfolding lang_opt by auto

lemma chars_in_Star:
  assumes "list_all (\<lambda>c. class_member False A c) s"
  shows "s \<in> lang False (Star (Cls False A))"
proof -
  have "set (map (\<lambda>c. [c]) s) \<subseteq> lang False (Cls False A)"
    using assms by (auto simp: list_all_iff)
  from in_lang_Star[OF this] show ?thesis by (simp add: concat_singletons)
qed

lemma chars_in_Plus:
  assumes "list_all (\<lambda>c. class_member False A c) s" "s \<noteq> []"
  shows "s \<in> lang False (Plus (Cls False A))"
proof -
  have "set (map (\<lambda>c. [c]) s) \<subseteq> lang False (Cls False A)"
    using assms by (auto simp: list_all_iff)
  from in_lang_Plus[OF this] assms(2) show ?thesis by (simp add: concat_singletons)
qed

lemma name_in_lang: "is_name n \<Longrightarrow> n \<in> lang False (Plus rx_w)"
  unfolding is_name_def by (rule chars_in_Plus) simp_all

lemma count_in_lang:
  assumes "is_count c"
  shows "c \<in> lang False (Seq rx_d19 (Star rx_d))"
proof -
  from assms obtain d ds where c: "c = d # ds" "in_range d (CHR ''1'', CHR ''9'')" "list_all is_digit ds"
    by (cases c) (auto simp: is_count_def)
  have "[d] \<in> lang False rx_d19" using c(2) by (simp add: class_member_def)
  moreover have "ds \<in> lang False (Star rx_d)"
    using c(3) by (intro chars_in_Star) (simp add: class_member_def is_digit_def list_all_iff)
  ultimately have "[d] @ ds \<in> lang False (Seq rx_d19 (Star rx_d))" by (rule in_lang_Seq)
  with c(1) show ?thesis by simp
qed

text \<open>The words of the groups of \<open>validatePathRegex\<close>.\<close>

lemma literal_in_lang:
  "literal_chars s \<Longrightarrow> \<exists>ws. s = concat ws \<and> set ws \<subseteq> lang False vp_e"
proof (induction s rule: literal_chars.induct)
  case 1
  show ?case by (rule exI[of _ "[]"]) simp
next
  case (2 c cs)
  show ?case
  proof (cases "c = CHR ''%''")
    case True
    with "2.prems" obtain h1 h2 r where cs: "cs = h1 # h2 # r"
      and h: "upper_hex h1" "upper_hex h2" and r: "literal_chars r"
      by (auto split: list.splits)
    from "2.IH"(1)[OF True cs refl r] obtain ws where ws: "r = concat ws" "set ws \<subseteq> lang False vp_e"
      by blast
    have "[h1] @ [h2] \<in> lang False (Times 2 (Cls False [(CHR ''A'', CHR ''F''), (CHR ''0'', CHR ''9'')]))"
    proof -
      have "set [[h1], [h2]] \<subseteq> lang False (Cls False [(CHR ''A'', CHR ''F''), (CHR ''0'', CHR ''9'')])"
        using h by (simp add: upper_hex_def)
      moreover have "[h1] @ [h2] = concat [[h1], [h2]]" by simp
      ultimately show ?thesis unfolding lang.simps(9) repL_def
        by (intro CollectI exI[of _ "[[h1], [h2]]"]) simp
    qed
    then have "[CHR ''%''] @ ([h1] @ [h2]) \<in> lang False
        (Seq (Chr CHR ''%'') (Times 2 (Cls False [(CHR ''A'', CHR ''F''), (CHR ''0'', CHR ''9'')])))"
      by (rule in_lang_Seq[rotated]) simp
    then have "[CHR ''%'', h1, h2] \<in> lang False vp_e"
      unfolding vp_e_def lang.simps(7,8) by simp
    with ws True cs show ?thesis
      by (intro exI[of _ "[CHR ''%'', h1, h2] # ws"]) simp
  next
    case False
    with "2.prems" have c: "class_member False legal_class c" and r: "literal_chars cs" by auto
    from "2.IH"(2)[OF False r] obtain ws where ws: "cs = concat ws" "set ws \<subseteq> lang False vp_e"
      by blast
    have "[c] \<in> lang False vp_e" using c by (simp add: vp_e_def)
    with ws show ?thesis
      by (intro exI[of _ "[c] # ws"]) simp
  qed
qed

lemma literal_in_Plus:
  assumes "literal_chars s" "s \<noteq> []"
  shows "s \<in> lang False (Plus vp_e)"
proof -
  from literal_in_lang[OF assms(1)] obtain ws where ws: "s = concat ws" "set ws \<subseteq> lang False vp_e"
    by blast
  with assms(2) have "ws \<noteq> []" by auto
  from in_lang_Plus[OF ws(2) this] ws(1) show ?thesis by simp
qed

lemma braces_in_lang:
  assumes "n \<in> lang False (Plus rx_w)" "d \<in> lang False D"
  shows "''{'' @ n @ d @ ''}'' \<in> lang False (Group (Seq (Chr CHR ''{'') (Seq (Plus rx_w) (Seq D (Chr CHR ''}'')))))"
proof -
  have "[CHR ''{''] @ (n @ (d @ [CHR ''}''])) \<in> lang False (Seq (Chr CHR ''{'') (Seq (Plus rx_w) (Seq D (Chr CHR ''}''))))"
    using assms by (intro in_lang_Seq) simp_all
  then show ?thesis by simp
qed

lemma inner_token_in_lang:
  assumes "token_ok tok" "inner_token tok"
  shows "CHR ''/'' # token_text tok \<in> lang False vp_c"
proof -
  have "token_text tok \<in> lang False (Group (Alt (Plus vp_e) vp_g))"
  proof (cases tok)
    case (Lit s)
    with assms literal_in_Plus[of s] show ?thesis by simp
  next
    case (Param n)
    have "[] \<in> lang False (Opt vp_h)" by (rule in_lang_Opt) simp
    from braces_in_lang[OF name_in_lang this, of n] Param assms show ?thesis
      by (simp add: vp_g_def)
  next
    case (ParamCount n c)
    have "[CHR ''*''] @ c \<in> lang False (Seq (Chr CHR ''*'') (Seq rx_d19 (Star rx_d)))"
      using ParamCount assms count_in_lang[of c] by (intro in_lang_Seq) simp_all
    then have "CHR ''*'' # c \<in> lang False (Opt vp_h)"
      by (intro in_lang_Opt) (simp add: vp_h_def)
    from braces_in_lang[OF name_in_lang this, of n] ParamCount assms show ?thesis
      by (simp add: vp_g_def)
  next
    case (ParamOptional n)
    with assms show ?thesis by simp
  next
    case (ParamUnbounded n)
    with assms show ?thesis by simp
  qed
  then have "[CHR ''/''] @ token_text tok \<in> lang False (Seq (Chr CHR ''/'') (Group (Alt (Plus vp_e) vp_g)))"
    by (intro in_lang_Seq) simp_all
  then show ?thesis by (simp add: vp_c_def)
qed

lemma last_token_in_lang:
  assumes "final_ok (Last tok)"
  shows "token_text tok \<in> lang False vp_j"
proof -
  have K: "d \<in> lang False (Opt vp_k) \<Longrightarrow> is_name n \<Longrightarrow> ''{'' @ n @ d @ ''}'' \<in> lang False vp_j" for d n
    using braces_in_lang[OF name_in_lang, of n d "Opt vp_k"] by (simp add: vp_j_def)
  show ?thesis
  proof (cases tok)
    case (Lit s)
    with assms show ?thesis by simp
  next
    case (Param n)
    have "[] \<in> lang False (Opt vp_k)" by (rule in_lang_Opt) simp
    from K[OF this, of n] Param assms show ?thesis by simp
  next
    case (ParamCount n c)
    have "c \<in> lang False (Opt (Group (Seq rx_d19 (Star rx_d))))"
      using ParamCount assms count_in_lang[of c] by (intro in_lang_Opt) simp
    then have "[CHR ''*''] @ c \<in> lang False (Seq (Chr CHR ''*'') (Opt (Group (Seq rx_d19 (Star rx_d)))))"
      by (intro in_lang_Seq) simp_all
    then have "CHR ''*'' # c \<in> lang False (Opt vp_k)"
      by (intro in_lang_Opt) (simp add: vp_k_def)
    from K[OF this, of n] ParamCount assms show ?thesis by simp
  next
    case (ParamOptional n)
    have "''?'' \<in> lang False (Opt vp_k)"
      by (intro in_lang_Opt) (simp add: vp_k_def)
    from K[OF this, of n] ParamOptional assms show ?thesis by simp
  next
    case (ParamUnbounded n)
    have "[] \<in> lang False (Opt (Group (Seq rx_d19 (Star rx_d))))" by (rule in_lang_Opt) simp
    then have "[CHR ''*''] @ [] \<in> lang False (Seq (Chr CHR ''*'') (Opt (Group (Seq rx_d19 (Star rx_d)))))"
      by (intro in_lang_Seq) simp_all
    then have "''*'' \<in> lang False (Opt vp_k)"
      by (intro in_lang_Opt) (simp add: vp_k_def)
    from K[OF this, of n] ParamUnbounded assms show ?thesis by simp
  qed
qed

lemma final_in_lang:
  assumes "final_ok fin"
  shows "(case fin of NoFinal \<Rightarrow> [] | Slash \<Rightarrow> ''/'' | Last tok \<Rightarrow> CHR ''/'' # token_text tok)
           \<in> lang False (Opt vp_i)"
proof (cases fin)
  case NoFinal
  then show ?thesis by (intro in_lang_Opt) simp
next
  case Slash
  have "[] \<in> lang False (Opt vp_j)" by (rule in_lang_Opt) simp
  then have "[CHR ''/''] @ [] \<in> lang False (Seq (Chr CHR ''/'') (Opt vp_j))"
    by (intro in_lang_Seq) simp_all
  then show ?thesis using Slash by (intro in_lang_Opt) (simp add: vp_i_def)
next
  case (Last tok)
  have "token_text tok \<in> lang False (Opt vp_j)"
    using last_token_in_lang assms Last by (intro in_lang_Opt) simp
  then have "[CHR ''/''] @ token_text tok \<in> lang False (Seq (Chr CHR ''/'') (Opt vp_j))"
    by (intro in_lang_Seq) simp_all
  then show ?thesis using Last by (intro in_lang_Opt) (simp add: vp_i_def)
qed

lemma template_in_lang:
  assumes "\<forall>tok \<in> set toks. token_ok tok \<and> inner_token tok" "final_ok fin"
  shows "template_text toks fin \<in> lang False (Seq (Star vp_c) (Opt vp_i))"
proof -
  have "set (map (\<lambda>tok. CHR ''/'' # token_text tok) toks) \<subseteq> lang False vp_c"
    using assms(1) inner_token_in_lang by auto
  from in_lang_Star[OF this] final_in_lang[OF assms(2)] show ?thesis
    unfolding template_text_def by (rule in_lang_Seq)
qed

section \<open>What paramRegex reads from a counted parameter\<close>

lemma run_Chr_FalseD:
  assumes "(e', inp', cap') \<in> set (run False (Chr c) k (e, inp, cap))"
  shows "inp = c # inp' \<and> e' = Suc e \<and> cap' = cap"
  using assms by (auto simp: canonicalize_def split: list.splits if_splits)

lemma run_Group_Chr_FalseD:
  assumes "(e', inp', cap') \<in> set (run False (Group (Chr c)) k (e, inp, cap))"
  shows "inp = c # inp' \<and> e' = Suc e \<and> cap' = cap[k := Some [c]]"
  using assms by (auto simp: canonicalize_def split: list.splits if_splits)

lemma run_BolD:
  "(e', inp', cap') \<in> set (run ic Bol k (e, inp, cap)) \<Longrightarrow> e = 0 \<and> e' = 0 \<and> inp' = inp \<and> cap' = cap"
  by (auto split: if_splits)

lemma run_EolD:
  "(e', inp', cap') \<in> set (run ic Eol k (e, inp, cap)) \<Longrightarrow> inp = [] \<and> e' = e \<and> inp' = inp \<and> cap' = cap"
  by (auto split: if_splits)

lemma run_no_groups:
  assumes "(e', inp', cap') \<in> set (run ic r k (e, inp, cap))" "ngroups r = 0"
  shows "cap' = cap"
proof (rule nth_equalityI)
  show "length cap' = length cap" using run_caps[OF assms(1)] by simp
  fix i assume "i < length cap'"
  have "i < k \<or> k + ngroups r \<le> i" using assms(2) by auto
  with run_caps[OF assms(1)] show "cap' ! i = cap ! i" by blast
qed

lemma lang_Plus_Cls:
  assumes "u \<in> lang ic (Plus (Cls False A))"
  shows "u \<noteq> [] \<and> list_all (class_member ic A) u"
proof -
  from assms obtain ws where ws: "u = concat ws" "set ws \<subseteq> {[ch] | ch. class_member ic A ch}"
    by (auto simp: repL_def)
  have "list_all (class_member ic A) (concat ws)"
    using ws(2) by (induction ws) auto
  with ws(1) lang_Plus_Cls_nonempty[OF assms] show ?thesis by simp
qed

lemma run_Group_Plus_ClsD:
  assumes "(e', inp', cap') \<in> set (run ic (Group (Plus (Cls False A))) k (e, inp, cap))"
  shows "\<exists>u. u \<noteq> [] \<and> list_all (class_member ic A) u \<and> inp = u @ inp' \<and> e' = e + length u
             \<and> cap' = cap[k := Some u]"
proof -
  from assms[unfolded set_run_Group] obtain c where
    g: "(e', inp', c) \<in> set (run ic (Plus (Cls False A)) (Suc k) (e, inp, cap))"
    and c: "cap' = c[k := Some (take (e' - e) inp)]"
    by (auto simp del: run.simps)
  have "plain (Plus (Cls False A))" by simp
  from run_word[OF g this] obtain u where u: "u \<in> lang ic (Plus (Cls False A))" "inp = u @ inp'"
    "e' = e + length u" by blast
  have "c = cap" using run_no_groups[OF g] by simp
  with c u lang_Plus_Cls[OF u(1)] show ?thesis by auto
qed

lemma run_OptD:
  assumes "y \<in> set (run ic (Opt A) k (e, inp, cap))"
  shows "y = (e, inp, cap) \<or> y \<in> set (run ic A k (e, inp, clear k (ngroups A) cap))"
proof -
  from run_Rep_cases[OF assms] show ?thesis
  proof
    assume "y = (e, inp, cap)"
    then show ?thesis by simp
  next
    assume "Some 1 \<noteq> Some (0::nat) \<and>
      (\<exists>e1 inp1 cap1. (e1, inp1, cap1) \<in> set (run ic A k (e, inp, clear k (ngroups A) cap)) \<and>
          \<not> (0 = (0::nat) \<and> length inp \<le> length inp1) \<and>
          y \<in> set (run ic (Rep (0 - 1) (dec (Some 1)) A) k (e1, inp1, cap1)))"
    then obtain e1 inp1 cap1 where
      1: "(e1, inp1, cap1) \<in> set (run ic A k (e, inp, clear k (ngroups A) cap))"
      and 2: "y \<in> set (run ic (Rep (0 - 1) (dec (Some 1)) A) k (e1, inp1, cap1))"
      by blast
    have "run ic (Rep (0 - 1) (dec (Some 1)) A) k (e1, inp1, cap1) = [(e1, inp1, cap1)]"
      by (subst run.simps) simp
    with 1 2 show ?thesis by simp
  qed
qed

lemma class_prefix_unique:
  assumes "xs @ a # r = u @ b # s" "list_all P xs" "list_all P u" "\<not> P a" "\<not> P b"
  shows "u = xs \<and> b # s = a # r"
proof -
  have tw: "takeWhile P (zs @ z # t) = zs" if "list_all P zs" "\<not> P z" for zs z t
    using that by (induction zs) auto
  have "xs = takeWhile P (xs @ a # r)" using tw[OF assms(2,4)] by simp
  also have "\<dots> = takeWhile P (u @ b # s)" using assms(1) by simp
  also have "\<dots> = u" using tw[OF assms(3,5)] .
  finally have "u = xs" by simp
  with assms(1) show ?thesis by simp
qed

lemma not_word_chars:
  "\<not> class_member False word_class CHR ''*''"
  "\<not> class_member False word_class CHR ''?''"
  "\<not> class_member False word_class CHR ''}''"
  by (simp_all add: class_member_def word_class_def in_range_def)

lemma not_digit_chars:
  "\<not> class_member False [(CHR ''0'', CHR ''9'')] CHR ''?''"
  "\<not> class_member False [(CHR ''0'', CHR ''9'')] CHR ''}''"
  by (simp_all add: class_member_def in_range_def)

text \<open>
  Every match of \<open>paramRegex\<close> reads a segment as a name in braces with an optional star,
  an optional count after the star and an optional question mark, and captures these parts.
\<close>

lemma paramRegex_parse:
  assumes "exec paramRegex seg = Some param"
  shows "\<exists>name w1 s2 s3 w2 s4.
           name \<noteq> [] \<and> list_all (class_member False word_class) name
         \<and> seg = ''{'' @ name @ w1 @ w2 @ ''}''
         \<and> param = [Some seg, Some name, s2, s3, s4]
         \<and> ((w1 = [] \<and> s2 = None \<and> s3 = None) \<or>
            (w1 = ''*'' \<and> s2 = Some ''*'' \<and> s3 = None) \<or>
            (\<exists>v. v \<noteq> [] \<and> list_all (class_member False [(CHR ''0'', CHR ''9'')]) v
                 \<and> w1 = CHR ''*'' # v \<and> s2 = Some ''*'' \<and> s3 = Some v))
         \<and> ((w2 = [] \<and> s4 = None) \<or> (w2 = ''?'' \<and> s4 = Some ''?''))"
proof -
  define G1 where "G1 = Group (Plus rx_w)"
  define O1 where "O1 = Opt (Seq (Group (Chr CHR ''*'')) (Opt (Group (Plus rx_d))))"
  define O2 where "O2 = Opt (Group (Chr CHR ''?''))"
  define r where "r = Seq Bol (Seq (Chr CHR ''{'') (Seq G1 (Seq O1 (Seq O2 (Seq (Chr CHR ''}'') Eol)))))"
  have src: "source paramRegex = r" "ignoreCase paramRegex = False"
    by (simp_all add: paramRegex_def regexp_of_def r_def G1_def O1_def O2_def)
  have ng: "ngroups r = 4" "ngroups G1 = 1" "ngroups O1 = 2" "ngroups O2 = 1"
    by (simp_all add: r_def G1_def O1_def O2_def)
  let ?c0 = "[None, None, None, None] :: string option list"
  have rep: "replicate (ngroups r) None = ?c0" by (simp add: ng numeral_eq_Suc)
  from assms have "exec_at False r 0 seg = Some param" by (simp add: exec_def src)
  from exec_at_Some[OF this] obtain j e rest cap where
    mem: "(e, rest, cap) \<in> set (run False r 0 (0 + j, drop j seg, replicate (ngroups r) None))"
    and m: "param = Some (take (e - (0 + j)) (drop j seg)) # cap" by blast
  from mem have mem': "(e, rest, cap) \<in> set (run False r 0 (j, drop j seg, ?c0))"
    by (simp only: rep add_0)
  from run_SeqD[OF mem'[unfolded r_def]] obtain x1 where
    x1: "x1 \<in> set (run False Bol 0 (j, drop j seg, ?c0))"
    and r1: "(e, rest, cap) \<in> set (run False (Seq (Chr CHR ''{'') (Seq G1 (Seq O1 (Seq O2 (Seq (Chr CHR ''}'') Eol))))) (0 + ngroups Bol) x1)"
    by blast
  obtain a1 b1 c1 where X1: "x1 = (a1, b1, c1)" by (cases x1)
  from run_BolD[OF x1[unfolded X1]] have j: "j = 0" and x1v: "x1 = (0, seg, ?c0)"
    unfolding X1 by simp_all
  from run_SeqD[OF r1] obtain x2 where
    x2: "x2 \<in> set (run False (Chr CHR ''{'') (0 + ngroups Bol) x1)"
    and r2: "(e, rest, cap) \<in> set (run False (Seq G1 (Seq O1 (Seq O2 (Seq (Chr CHR ''}'') Eol)))) (0 + ngroups Bol + ngroups (Chr CHR ''{'')) x2)"
    by blast
  obtain a2 i2 c2 where X2: "x2 = (a2, i2, c2)" by (cases x2)
  from run_Chr_FalseD[OF x2[unfolded X2 x1v]] have seg: "seg = CHR ''{'' # i2" and x2v: "x2 = (1, i2, ?c0)"
    unfolding X2 by simp_all
  from run_SeqD[OF r2] obtain x3 where
    x3: "x3 \<in> set (run False G1 (0 + ngroups Bol + ngroups (Chr CHR ''{'')) x2)"
    and r3: "(e, rest, cap) \<in> set (run False (Seq O1 (Seq O2 (Seq (Chr CHR ''}'') Eol))) (0 + ngroups Bol + ngroups (Chr CHR ''{'') + ngroups G1) x3)"
    by blast
  obtain e3 i3 c3 where X3: "x3 = (e3, i3, c3)" by (cases x3)
  have "(e3, i3, c3) \<in> set (run False (Group (Plus rx_w)) 0 (1, i2, ?c0))"
    using x3 unfolding X3 x2v G1_def by (simp del: run.simps)
  from run_Group_Plus_ClsD[OF this] obtain name where
    name: "name \<noteq> []" "list_all (class_member False word_class) name" "i2 = name @ i3"
    and c3: "c3 = [Some name, None, None, None]"
    by auto
  have k1: "0 + ngroups Bol + ngroups (Chr CHR ''{'') + ngroups G1 = 1" by (simp add: ng)
  from run_SeqD[OF r3[unfolded k1]] obtain y1 where
    y1: "y1 \<in> set (run False O1 1 x3)"
    and q4: "(e, rest, cap) \<in> set (run False (Seq O2 (Seq (Chr CHR ''}'') Eol)) (1 + ngroups O1) y1)"
    by blast
  have k3: "1 + ngroups O1 = 3" by (simp add: ng)
  note r4 = q4[unfolded k3]
  obtain e4 i4 c4 where Y1: "y1 = (e4, i4, c4)" by (cases y1)
  from run_SeqD[OF r4] obtain y2 where
    y2: "y2 \<in> set (run False O2 3 y1)"
    and q5: "(e, rest, cap) \<in> set (run False (Seq (Chr CHR ''}'') Eol) (3 + ngroups O2) y2)"
    by blast
  have k4: "3 + ngroups O2 = 4" by (simp add: ng)
  note r5 = q5[unfolded k4]
  obtain e5 i5 c5 where Y2: "y2 = (e5, i5, c5)" by (cases y2)
  from run_SeqD[OF r5] obtain y3 where
    y3: "y3 \<in> set (run False (Chr CHR ''}'') 4 y2)"
    and r6: "(e, rest, cap) \<in> set (run False Eol (4 + ngroups (Chr CHR ''}'')) y3)"
    by blast
  obtain e6 i6 c6 where Y3: "y3 = (e6, i6, c6)" by (cases y3)
  from run_Chr_FalseD[OF y3[unfolded Y3 Y2]] have i5: "i5 = CHR ''}'' # i6" and c6: "c6 = c5" by simp_all
  from run_EolD[OF r6[unfolded Y3]] have i6: "i6 = []" and rest: "rest = []" and cap: "cap = c6" by simp_all
  \<comment> \<open>the star and the count\<close>
  have star: "\<exists>w1 s2 s3. i3 = w1 @ i4 \<and> c4 = [Some name, s2, s3, None] \<and>
         ((w1 = [] \<and> s2 = None \<and> s3 = None) \<or>
          (w1 = ''*'' \<and> s2 = Some ''*'' \<and> s3 = None) \<or>
          (\<exists>v. v \<noteq> [] \<and> list_all (class_member False [(CHR ''0'', CHR ''9'')]) v
               \<and> w1 = CHR ''*'' # v \<and> s2 = Some ''*'' \<and> s3 = Some v))"
  proof -
    from run_OptD[OF y1[unfolded X3 O1_def]]
    consider "y1 = (e3, i3, c3)"
      | "y1 \<in> set (run False (Seq (Group (Chr CHR ''*'')) (Opt (Group (Plus rx_d)))) 1
                      (e3, i3, clear 1 (ngroups (Seq (Group (Chr CHR ''*'')) (Opt (Group (Plus rx_d))))) c3))"
      by blast
    then show ?thesis
    proof cases
      case 1
      then show ?thesis using Y1 c3 by auto
    next
      case 2
      have cl: "clear 1 (ngroups (Seq (Group (Chr CHR ''*'')) (Opt (Group (Plus rx_d))))) c3 = c3"
        by (simp add: c3 numeral_eq_Suc)
      from run_SeqD[OF 2[unfolded cl]] obtain sa where
        sa: "sa \<in> set (run False (Group (Chr CHR ''*'')) 1 (e3, i3, c3))"
        and qa: "y1 \<in> set (run False (Opt (Group (Plus rx_d))) (1 + ngroups (Group (Chr CHR ''*''))) sa)"
        by blast
      have k2: "1 + ngroups (Group (Chr CHR ''*'')) = 2" by simp
      note ra = qa[unfolded k2]
      obtain ea ia ca where SA: "sa = (ea, ia, ca)" by (cases sa)
      from run_Group_Chr_FalseD[OF sa[unfolded SA]] have ia: "i3 = CHR ''*'' # ia"
        and ca: "ca = [Some name, Some ''*'', None, None]" by (simp_all add: c3)
      from run_OptD[OF ra[unfolded SA]]
      consider "y1 = (ea, ia, ca)"
        | "y1 \<in> set (run False (Group (Plus rx_d)) 2 (ea, ia, clear 2 (ngroups (Group (Plus rx_d))) ca))"
        by blast
      then show ?thesis
      proof cases
        case 1
        then show ?thesis using Y1 ia ca by auto
      next
        case 2
        have cl2: "clear 2 (ngroups (Group (Plus rx_d))) ca = ca"
          by (simp add: ca)
        from run_Group_Plus_ClsD[OF 2[unfolded cl2 Y1]] obtain v where
          "v \<noteq> []" "list_all (class_member False [(CHR ''0'', CHR ''9'')]) v" "ia = v @ i4"
          "c4 = ca[2 := Some v]" by blast
        then show ?thesis using ia ca by auto
      qed
    qed
  qed
  \<comment> \<open>the question mark\<close>
  have opt: "\<exists>w2 s4. i4 = w2 @ i5 \<and> c5 = c4[3 := s4] \<and> (c4 ! 3 = None \<longrightarrow>
         ((w2 = [] \<and> s4 = None) \<or> (w2 = ''?'' \<and> s4 = Some ''?'')))"
  proof -
    from run_OptD[OF y2[unfolded Y1 O2_def]]
    consider "y2 = (e4, i4, c4)"
      | "y2 \<in> set (run False (Group (Chr CHR ''?'')) 3 (e4, i4, clear 3 (ngroups (Group (Chr CHR ''?''))) c4))"
      by blast
    then show ?thesis
    proof cases
      case 1
      then have "i4 = [] @ i5" "c5 = c4[3 := c4 ! 3]" using Y2 by simp_all
      then show ?thesis by blast
    next
      case 2
      from run_Group_Chr_FalseD[OF 2[unfolded Y2]] have "i4 = ''?'' @ i5"
        "c5 = (clear 3 (ngroups (Group (Chr CHR ''?''))) c4)[3 := Some ''?'']" by simp_all
      moreover have "(clear 3 (ngroups (Group (Chr CHR ''?''))) c4)[3 := Some ''?''] = c4[3 := Some ''?'']"
        by simp
      ultimately show ?thesis by auto
    qed
  qed
  from star obtain w1 s2 s3 where w1: "i3 = w1 @ i4" "c4 = [Some name, s2, s3, None]"
    "(w1 = [] \<and> s2 = None \<and> s3 = None) \<or>
          (w1 = ''*'' \<and> s2 = Some ''*'' \<and> s3 = None) \<or>
          (\<exists>v. v \<noteq> [] \<and> list_all (class_member False [(CHR ''0'', CHR ''9'')]) v
               \<and> w1 = CHR ''*'' # v \<and> s2 = Some ''*'' \<and> s3 = Some v)"
    by blast
  from opt w1(2) obtain w2 s4 where w2: "i4 = w2 @ i5" "c5 = [Some name, s2, s3, s4]"
    "(w2 = [] \<and> s4 = None) \<or> (w2 = ''?'' \<and> s4 = Some ''?'')"
    by auto
  have segv: "seg = ''{'' @ name @ w1 @ w2 @ ''}''"
    using seg name(3) w1(1) w2(1) i5 i6 by simp
  from run_suffix[OF mem'] rest j have "e = length seg" by auto
  with m j have "param = Some seg # cap" by simp
  with cap c6 w2(2) have "param = [Some seg, Some name, s2, s3, s4]" by simp
  with name(1,2) segv w1(3) w2(3) show ?thesis by blast
qed

lemma runp_Seq_intro:
  "y \<in> set (runp ic a x) \<Longrightarrow> z \<in> set (runp ic b y) \<Longrightarrow> z \<in> set (runp ic (Seq a b) x)"
  by auto

lemma runp_word_intro:
  "plain a \<Longrightarrow> w \<in> lang ic a \<Longrightarrow> (e + length w, rest) \<in> set (runp ic a (e, w @ rest))"
  unfolding runp_lang ends_def by blast

lemma exec_Some_intro:
  assumes "z \<in> set (runp (ignoreCase re) (source re) (0, s))"
  shows "exec re s \<noteq> None"
proof
  assume "exec re s = None"
  then have "\<forall>j \<le> length s. runp (ignoreCase re) (source re) (0 + j, drop j s) = []"
    unfolding exec_def exec_at_None .
  then have "runp (ignoreCase re) (source re) (0, s) = []"
    by (metis add.right_neutral drop0 le0)
  with assms show False by simp
qed

text \<open>The token \<open>{name*count}\<close>: \<open>paramRegex\<close> matches it and captures the name, the star and the count.\<close>

lemma paramRegex_matches_count:
  assumes "is_name n" "is_count c"
  shows "exec paramRegex (''{'' @ n @ ''*'' @ c @ ''}'') \<noteq> None"
proof -
  define O1 where "O1 = Opt (Seq (Group (Chr CHR ''*'')) (Opt (Group (Plus rx_d))))"
  define O2 where "O2 = Opt (Group (Chr CHR ''?''))"
  let ?e1 = "1 + length n"
  let ?e2 = "?e1 + length (CHR ''*'' # c)"
  have digits: "list_all (class_member False [(CHR ''0'', CHR ''9'')]) c" "c \<noteq> []"
  proof -
    from assms(2) obtain d ds where c: "c = d # ds" "in_range d (CHR ''1'', CHR ''9'')" "list_all is_digit ds"
      by (cases c) (auto simp: is_count_def)
    then show "list_all (class_member False [(CHR ''0'', CHR ''9'')]) c"
      by (auto simp: class_member_def is_digit_def in_range_def list_all_iff)
    show "c \<noteq> []" using c by simp
  qed
  have 1: "(0, ''{'' @ n @ ''*'' @ c @ ''}'') \<in> set (runp False Bol (0, ''{'' @ n @ ''*'' @ c @ ''}''))"
    by simp
  have 2: "(1, n @ ''*'' @ c @ ''}'') \<in> set (runp False (Chr CHR ''{'') (0, ''{'' @ n @ ''*'' @ c @ ''}''))"
    by simp
  define G1 where "G1 = Group (Plus rx_w)"
  have pl: "plain G1" "plain O1" "plain O2" by (simp_all add: G1_def O1_def O2_def)
  have "n \<in> lang False G1" using name_in_lang[OF assms(1)] by (simp add: G1_def)
  from runp_word_intro[OF pl(1) this, of 1 "(CHR ''*'' # c) @ ''}''"]
  have 3: "(?e1, (CHR ''*'' # c) @ ''}'') \<in> set (runp False G1 (1, n @ ''*'' @ c @ ''}''))"
    by simp
  have "c \<in> lang False (Opt (Group (Plus rx_d)))"
    using chars_in_Plus[OF digits] by (intro in_lang_Opt) simp
  then have "[CHR ''*''] @ c \<in> lang False (Seq (Group (Chr CHR ''*'')) (Opt (Group (Plus rx_d))))"
    by (intro in_lang_Seq) simp_all
  then have w1: "CHR ''*'' # c \<in> lang False O1"
    unfolding O1_def by (intro in_lang_Opt) simp
  from runp_word_intro[OF pl(2) w1, of ?e1 "''}''"]
  have 4: "(?e2, ''}'') \<in> set (runp False O1 (?e1, (CHR ''*'' # c) @ ''}''))"
    by simp
  have "[] \<in> lang False O2" unfolding O2_def by (intro in_lang_Opt) simp
  from runp_word_intro[OF pl(3) this, of ?e2 "''}''"]
  have 5: "(?e2, ''}'') \<in> set (runp False O2 (?e2, ''}''))"
    by simp
  have 6: "(Suc ?e2, []) \<in> set (runp False (Chr CHR ''}'') (?e2, ''}''))" by simp
  have 7: "(Suc ?e2, []) \<in> set (runp False Eol (Suc ?e2, []))" by simp
  have "(Suc ?e2, []) \<in> set (runp False
          (Seq Bol (Seq (Chr CHR ''{'') (Seq G1 (Seq O1 (Seq O2 (Seq (Chr CHR ''}'') Eol))))))
          (0, ''{'' @ n @ ''*'' @ c @ ''}''))"
    by (intro runp_Seq_intro[OF 1] runp_Seq_intro[OF 2] runp_Seq_intro[OF 3]
          runp_Seq_intro[OF 4] runp_Seq_intro[OF 5] runp_Seq_intro[OF 6] 7)
  then have "(Suc ?e2, []) \<in> set (runp (ignoreCase paramRegex) (source paramRegex) (0, ''{'' @ n @ ''*'' @ c @ ''}''))"
    by (simp only: paramRegex_def regexp_of_def G1_def O1_def O2_def regexp.simps)
  then show ?thesis by (rule exec_Some_intro)
qed

lemma count_digits:
  assumes "is_count c"
  shows "c \<noteq> []" "list_all (class_member False [(CHR ''0'', CHR ''9'')]) c" "list_all is_digit c"
proof -
  from assms obtain d ds where c: "c = d # ds" "in_range d (CHR ''1'', CHR ''9'')" "list_all is_digit ds"
    by (cases c) (auto simp: is_count_def)
  show "c \<noteq> []" using c by simp
  show "list_all is_digit c" using c by (auto simp: is_digit_def in_range_def)
  then show "list_all (class_member False [(CHR ''0'', CHR ''9'')]) c"
    by (auto simp: class_member_def is_digit_def list_all_iff)
qed

lemma paramRegex_count_token:
  assumes "is_name n" "is_count c"
  shows "exec paramRegex (''{'' @ n @ ''*'' @ c @ ''}'')
           = Some [Some (''{'' @ n @ ''*'' @ c @ ''}''), Some n, Some ''*'', Some c, None]"
proof -
  let ?seg = "''{'' @ n @ ''*'' @ c @ ''}''"
  let ?W = "class_member False word_class"
  let ?D = "class_member False [(CHR ''0'', CHR ''9'')]"
  from paramRegex_matches_count[OF assms] obtain param where p: "exec paramRegex ?seg = Some param"
    by auto
  from paramRegex_parse[OF p] obtain name w1 s2 s3 w2 s4 where
    name: "name \<noteq> []" "list_all ?W name"
    and seg: "?seg = ''{'' @ name @ w1 @ w2 @ ''}''"
    and param: "param = [Some ?seg, Some name, s2, s3, s4]"
    and st: "(w1 = [] \<and> s2 = None \<and> s3 = None) \<or>
            (w1 = ''*'' \<and> s2 = Some ''*'' \<and> s3 = None) \<or>
            (\<exists>v. v \<noteq> [] \<and> list_all ?D v \<and> w1 = CHR ''*'' # v \<and> s2 = Some ''*'' \<and> s3 = Some v)"
    and op: "(w2 = [] \<and> s4 = None) \<or> (w2 = ''?'' \<and> s4 = Some ''?'')"
    by blast
  have nW: "list_all ?W n" using assms(1) by (simp add: is_name_def)
  note cd = count_digits[OF assms(2)]
  from st op obtain b s where bs: "w1 @ w2 @ ''}'' = b # s" "\<not> ?W b"
    using not_word_chars by auto
  from seg bs(1) have "n @ CHR ''*'' # (c @ ''}'') = name @ b # s" by simp
  from class_prefix_unique[OF this nW name(2) not_word_chars(1) bs(2)]
  have nm: "name = n" and tail: "b # s = CHR ''*'' # (c @ ''}'')" by simp_all
  from tail bs(1) have t: "w1 @ w2 @ ''}'' = CHR ''*'' # c @ ''}''" by simp
  obtain d ds where c: "c = d # ds" using cd(1) by (cases c) auto
  have dD: "?D d" using cd(2) c by simp
  from st have "s2 = Some ''*'' \<and> s3 = Some c \<and> w2 = []"
  proof (elim disjE conjE exE)
    assume "w1 = []"
    with t op show ?thesis by auto
  next
    assume w1: "w1 = ''*''"
    with t have "w2 @ ''}'' = d # ds @ ''}''" by (simp add: c)
    with op dD not_digit_chars show ?thesis by auto
  next
    fix v assume v: "v \<noteq> []" "list_all ?D v" "w1 = CHR ''*'' # v" "s2 = Some ''*''" "s3 = Some v"
    from op obtain b' s' where b': "w2 @ ''}'' = b' # s'" "\<not> ?D b'"
      using not_digit_chars by auto
    from t v(3) b'(1) have "c @ CHR ''}'' # [] = v @ b' # s'" by simp
    from class_prefix_unique[OF this cd(2) v(2) not_digit_chars(2) b'(2)]
    have "v = c" "b' # s' = ''}''" by simp_all
    with b'(1) op v show ?thesis by auto
  qed
  with op param nm p show ?thesis by auto
qed

lemma decimal_foldl_ge: "a \<le> foldl (\<lambda>n c. 10 * n + digit_val c) a s"
proof (induction s arbitrary: a)
  case Nil
  show ?case by simp
next
  case (Cons x s)
  have "a \<le> 10 * a + digit_val x" by simp
  also have "\<dots> \<le> foldl (\<lambda>n c. 10 * n + digit_val c) (10 * a + digit_val x) s" by (rule Cons)
  finally show ?case by simp
qed

lemma decimal_count_positive:
  assumes "is_count c"
  shows "0 < decimal c"
proof -
  from assms obtain d ds where c: "c = d # ds" "in_range d (CHR ''1'', CHR ''9'')"
    by (cases c) (auto simp: is_count_def)
  have "(49::nat) \<le> of_char d" using c(2) by (simp add: in_range_def)
  then have "(1::nat) \<le> of_char d - 48" by arith
  then have "1 \<le> digit_val d" by (simp add: digit_val_def)
  also have "\<dots> \<le> foldl (\<lambda>n c. 10 * n + digit_val c) (digit_val d) ds" by (rule decimal_foldl_ge)
  finally show ?thesis using c(1) by (simp add: decimal_def)
qed

lemma count_token_variables:
  assumes "is_name n" "is_count c"
    and "exec paramRegex (''{'' @ n @ ''*'' @ c @ ''}'') = Some param"
  shows "param_name param = n" "param_isMulti param"
    "param_multiCount param = Some (decimal c)" "\<not> param_isOptional param"
proof -
  have param: "param = [Some (''{'' @ n @ ''*'' @ c @ ''}''), Some n, Some ''*'', Some c, None]"
    using paramRegex_count_token[OF assms(1,2)] assms(3) by simp
  note cd = count_digits[OF assms(2)]
  have tw: "takeWhile is_digit c = c" using cd(3) by (simp add: takeWhile_eq_all_conv list_all_iff)
  show "param_name param = n" by (simp add: param param_name_def ToString_def)
  show "param_isMulti param" by (simp add: param param_isMulti_def ToBoolean_def)
  show "param_multiCount param = Some (decimal c)"
    using cd(1) by (simp add: param param_multiCount_def ToBoolean_def ToString_def parseInt_def tw)
  show "\<not> param_isOptional param" by (simp add: param param_isOptional_def ToBoolean_def)
qed

text \<open>
  A pattern that ends in the fragment of a parameter: the last capture of a match is what
  follows the separator of the last fragment.
\<close>

lemma exec_last_segment:
  assumes "plain X0"
    and "exec \<lparr>source = Seq Bol (Seq (Seq X0 (segmentRX isMulti multiCount)) Eol), ignoreCase = ic\<rparr> p = Some m"
  shows "\<exists>p0 u. p = p0 @ u \<and> p0 \<in> lang ic X0 \<and> u \<in> param_words isMulti multiCount
           \<and> hd m = Some p \<and> last m = Some (tl u)"
proof -
  have "\<exists>X. segmentRX isMulti multiCount = Seq rx_slash (Group X) \<and> plain X \<and> ngroups X = 0"
    by (cases isMulti; cases "is_truthy multiCount") (simp_all add: segmentRX_def)
  then obtain X where X: "segmentRX isMulti multiCount = Seq rx_slash (Group X)" "plain X" "ngroups X = 0"
    by blast
  define S where "S = Seq rx_slash (Group X)"
  define R where "R = Seq Bol (Seq (Seq X0 S) Eol)"
  define k where "k = ngroups X0"
  have pS: "plain S" "ngroups S = 1" using X by (simp_all add: S_def)
  have ngR: "ngroups R = Suc k" using X by (simp add: R_def S_def k_def)
  from assms(2) have "exec_at ic R 0 p = Some m" by (simp add: exec_def X(1) R_def S_def)
  from exec_at_Some[OF this] obtain j e rest cap where
    mem: "(e, rest, cap) \<in> set (run ic R 0 (0 + j, drop j p, replicate (ngroups R) None))"
    and m: "m = Some (take (e - (0 + j)) (drop j p)) # cap" by blast
  from run_SeqD[OF mem[unfolded R_def]] obtain x1 where
    x1: "x1 \<in> set (run ic Bol 0 (0 + j, drop j p, replicate (ngroups R) None))"
    and q1: "(e, rest, cap) \<in> set (run ic (Seq (Seq X0 S) Eol) (0 + ngroups Bol) x1)"
    unfolding R_def[symmetric] by blast
  obtain a1 b1 c1 where X1: "x1 = (a1, b1, c1)" by (cases x1)
  from run_BolD[OF x1[unfolded X1]] have j: "j = 0" and x1v: "x1 = (0, p, replicate (Suc k) None)"
    unfolding X1 by (simp_all add: ngR)
  have k0: "0 + ngroups Bol = 0" by simp
  from run_SeqD[OF q1[unfolded k0]] obtain z where
    z: "z \<in> set (run ic (Seq X0 S) 0 x1)"
    and q2: "(e, rest, cap) \<in> set (run ic Eol (0 + ngroups (Seq X0 S)) z)"
    by blast
  obtain ez iz cz where Z: "z = (ez, iz, cz)" by (cases z)
  from run_EolD[OF q2[unfolded Z]] have iz: "iz = []" and fin: "e = ez" "rest = []" "cap = cz" by simp_all
  from run_SeqD[OF z] obtain y0 where
    y0: "y0 \<in> set (run ic X0 0 x1)"
    and q3: "z \<in> set (run ic S (0 + ngroups X0) y0)"
    by blast
  obtain e0 i0 c0 where Y0: "y0 = (e0, i0, c0)" by (cases y0)
  from run_word[OF y0[unfolded Y0 x1v] assms(1)] obtain p0 where
    p0: "p0 \<in> lang ic X0" "p = p0 @ i0" by blast
  have l0: "length c0 = Suc k" using run_caps[OF y0[unfolded Y0 x1v]] by simp
  have kk: "0 + ngroups X0 = k" by (simp add: k_def)
  note q4 = q3[unfolded kk Y0 Z]
  from run_word[OF q4 pS(1)] iz have u: "i0 \<in> lang ic S" by auto
  from q4[unfolded S_def set_run_slash] obtain i1 where i1: "i0 = CHR ''/'' # i1"
    and q5: "(ez, iz, cz) \<in> set (run ic (Group X) k (Suc e0, i1, c0))"
    by (auto split: list.splits if_splits simp del: run.simps)
  from q5[unfolded set_run_Group] obtain c where
    g: "(ez, iz, c) \<in> set (run ic X (Suc k) (Suc e0, i1, c0))"
    and cz: "cz = c[k := Some (take (ez - Suc e0) i1)]"
    by (auto simp del: run.simps)
  from run_suffix[OF g] iz have "ez = Suc e0 + length i1" by auto
  moreover have lc: "length c = Suc k" using run_caps[OF g] l0 by simp
  ultimately have czk: "cz ! k = Some i1" "length cz = Suc k" using cz by simp_all
  have ne: "cz \<noteq> []" using czk(2) by (cases cz) simp_all
  have "last cz = cz ! (length cz - 1)" using ne by (rule last_conv_nth)
  with czk ne have "last cz = Some i1" "cz \<noteq> []" by simp_all
  with m fin have last: "last m = Some (tl i0)" by (simp add: i1)
  from run_suffix[OF mem] fin j have "e = length p" by auto
  with m j have hd: "hd m = Some p" by simp
  have "i0 \<in> param_words isMulti multiCount"
    using u lang_segmentRX[of ic isMulti multiCount] by (simp add: X(1) S_def)
  with p0 last hd show ?thesis by blast
qed

lemma snoc_param_pattern:
  assumes seg: "CHR ''/'' \<notin> set seg"
    and r0: "generateRegex settings t0 = Inr r0"
    and r: "generateRegex settings (t0 @ CHR ''/'' # seg) = Inr r"
    and param: "exec paramRegex seg = Some param"
  shows "\<exists>X0. plain X0
      \<and> regexp r0 = \<lparr>source = Seq Bol (Seq X0 Eol), ignoreCase = (\<not> isCaseSensitive settings)\<rparr>
      \<and> regexp r = \<lparr>source = Seq Bol (Seq (Seq X0
            (param_pathRX (\<not> isTrailingSlashSensitive settings) (param_isMulti param)
               (param_multiCount param) (param_isOptional param))) Eol),
          ignoreCase = (\<not> isCaseSensitive settings)\<rparr>"
proof -
  let ?tso = "\<not> isTrailingSlashSensitive settings"
  let ?ic = "\<not> isCaseSensitive settings"
  from r0 obtain g0 where g0: "segments_loop ?tso (tl (split CHR ''/'' t0)) initial = Inr g0"
    "regexp r0 = \<lparr>source = Seq Bol (Seq (pathRX g0) Eol), ignoreCase = ?ic\<rparr>" "plain (pathRX g0)"
    by (rule generateRegex_Inr)
  from r obtain g where g: "segments_loop ?tso (tl (split CHR ''/'' (t0 @ CHR ''/'' # seg))) initial = Inr g"
    "regexp r = \<lparr>source = Seq Bol (Seq (pathRX g) Eol), ignoreCase = ?ic\<rparr>"
    by (rule generateRegex_Inr)
  have "segment_step ?tso seg g0 = Inr g"
    using g(1) g0(1) by (simp add: split_snoc[OF seg] segments_loop_append split: sum.splits)
  from segment_step_param(3)[OF param this] g(2) g0(2,3) show ?thesis by auto
qed

lemma word_chars_no_slash: "list_all (class_member False word_class) n \<Longrightarrow> CHR ''/'' \<notin> set n"
proof
  assume a: "list_all (class_member False word_class) n" "CHR ''/'' \<in> set n"
  then have "class_member False word_class CHR ''/''" by (auto simp: list_all_iff)
  then show False by (simp add: class_member_def word_class_def in_range_def)
qed

lemma digits_no_slash: "list_all is_digit c \<Longrightarrow> CHR ''/'' \<notin> set c"
proof
  assume a: "list_all is_digit c" "CHR ''/'' \<in> set c"
  then have "is_digit CHR ''/''" by (auto simp: list_all_iff)
  then show False by (simp add: is_digit_def in_range_def)
qed

section \<open>Properties of the route module\<close>

text \<open>
  C4.  The parameter names are the keys of an object, and \<open>Object.keys\<close> lists keys that are
  array indices first, in numeric order: the template \<open>/{2}/{1}\<close> yields the names
  \<open>1, 2\<close>, not \<open>2, 1\<close> as they appear in the template, and \<open>match\<close> then stores the first
  segment of the path under the name \<open>1\<close>.
\<close>

theorem digit_names_lose_template_order:
  "params_of sensitive ''/{2}/{1}'' = Inr [''1'', ''2'']
   \<and> match_path sensitive ''/{2}/{1}'' ''/x/y'' =
       Inr (True, \<lparr>req_path = ''/x/y'',
                   req_params = [(''1'', String [120]), (''2'', String [121])],
                   paramsArray = [String [120], String [121]]\<rparr>)"
  by (simp add: request_eval route_eval rx_eval decode_eval)

text \<open>
  C2.  \<open>match\<close> empties the parameters of the request and fills them capture by capture.  When
  the second capture of \<open>/{a}/{b}\<close> fails to decode, \<open>match\<close> returns \<open>false\<close> and the request
  keeps the value decoded for the first.
\<close>

theorem decode_failure_keeps_earlier_values:
  "match_path sensitive ''/{a}/{b}'' ''/x/%E0%A4%A'' =
     Inr (False, \<lparr>req_path = ''/x/%E0%A4%A'',
                  req_params = [(''a'', String [120])],
                  paramsArray = [String [120]]\<rparr>)"
  by (simp add: request_eval route_eval rx_eval decode_eval)

text \<open>
  C1 as the spec states it: with \<open>isTrailingSlashSensitive\<close> on, a bare trailing slash is not
  accepted in place of an absent optional parameter.  The pattern of \<open>/user/{id?}\<close> accepts
  \<open>/user/\<close>.
\<close>

theorem bare_slash_accepted_when_sensitive:
  "test_path sensitive ''/user/{id?}'' ''/user/'' = Inr True"
  by (simp add: request_eval route_eval rx_eval)

text \<open>
  C1, amended.  Take a template that ends in a parameter whose absence is permitted (the
  pattern from \<open>_generateRegex\<close> is the one \<open>Route\<close> keeps), and the template without that
  last segment.  With \<open>isTrailingSlashSensitive\<close> on, the route accepts exactly the paths that
  continue a path of the shorter route by a bare slash or by the full fragment, the slash
  followed by the value.  The separator is required; the bare slash is accepted.
\<close>

theorem optional_unit_requires_separator:
  assumes "isTrailingSlashSensitive settings"
    and "CHR ''/'' \<notin> set seg"
    and "generateRegex settings t0 = Inr r0"
    and "generateRegex settings (t0 @ CHR ''/'' # seg) = Inr r"
    and "exec paramRegex seg = Some param"
    and "param_isOptional param \<or> (param_isMulti param \<and> \<not> is_truthy (param_multiCount param))"
  shows "test r p \<longleftrightarrow>
     (\<exists>p0 u. p = p0 @ u \<and> test r0 p0 \<and>
        (u = ''/'' \<or> u \<in> param_words (param_isMulti param) (param_multiCount param)))"
  unfolding test_snoc_param[OF assms(2-5)] lang_param_pathRX
  using assms(1,6) by auto

theorem optional_unit_requires_separator_witness:
  "isTrailingSlashSensitive sensitive
   \<and> CHR ''/'' \<notin> set ''{id?}''
   \<and> generateRegex sensitive ''/user'' = Inr (projr (generateRegex sensitive ''/user''))
   \<and> generateRegex sensitive (''/user'' @ CHR ''/'' # ''{id?}'')
       = Inr (projr (generateRegex sensitive ''/user/{id?}''))
   \<and> exec paramRegex ''{id?}'' = Some [Some ''{id?}'', Some ''id'', None, None, Some ''?'']
   \<and> param_isOptional [Some ''{id?}'', Some ''id'', None, None, Some ''?'']
   \<and> (test (projr (generateRegex sensitive ''/user/{id?}'')) ''/user/'' \<longleftrightarrow>
        (\<exists>p0 u. ''/user/'' = p0 @ u \<and> test (projr (generateRegex sensitive ''/user'')) p0 \<and>
           (u = ''/'' \<or> u \<in> param_words
              (param_isMulti [Some ''{id?}'', Some ''id'', None, None, Some ''?''])
              (param_multiCount [Some ''{id?}'', Some ''id'', None, None, Some ''?'']))))"
proof -
  have 1: "isTrailingSlashSensitive sensitive" by simp
  have 2: "CHR ''/'' \<notin> set ''{id?}''" by simp
  have 3: "generateRegex sensitive ''/user'' = Inr (projr (generateRegex sensitive ''/user''))"
    by (simp add: route_eval rx_eval)
  have 4: "generateRegex sensitive (''/user'' @ CHR ''/'' # ''{id?}'')
       = Inr (projr (generateRegex sensitive ''/user/{id?}''))"
    by (simp add: route_eval rx_eval)
  have 5: "exec paramRegex ''{id?}'' = Some [Some ''{id?}'', Some ''id'', None, None, Some ''?'']"
    by (simp add: rx_eval)
  have 6: "param_isOptional [Some ''{id?}'', Some ''id'', None, None, Some ''?'']"
    by (simp add: param_isOptional_def ToBoolean_def)
  from optional_unit_requires_separator[OF 1 2 3 4 5 disjI1[OF 6], of "''/user/''"] 1 2 3 4 5 6
  show ?thesis by blast
qed

text \<open>
  C10.  With \<open>isTrailingSlashSensitive\<close> off, the root template \<open>/\<close> compiles, under either
  case setting, to a pattern whose only segment is an optional slash: \<open>test\<close> accepts the empty
  path and \<open>/\<close>, and nothing else.  With the setting on, only \<open>/\<close> is accepted.
\<close>

theorem root_template_accepts_empty_path:
  "test_path \<lparr>isCaseSensitive = cs, isTrailingSlashSensitive = False\<rparr> ''/'' p = Inr (p = [] \<or> p = ''/'')
   \<and> test_path \<lparr>isCaseSensitive = cs, isTrailingSlashSensitive = True\<rparr> ''/'' p = Inr (p = ''/'')"
proof -
  define r where "r tss = \<lparr>path = ''/'',
        regexp = \<lparr>source = Seq Bol (Seq (Seq Eps (if tss then rx_slash else Opt rx_slash)) Eol),
                  ignoreCase = (\<not> cs)\<rparr>,
        params = [], fingerprint = ''/''\<rparr>" for tss
  have R: "Route \<lparr>isCaseSensitive = cs, isTrailingSlashSensitive = tss\<rparr> ''/'' = Inr (r tss)" for tss
    unfolding r_def by (cases cs; cases tss) (simp_all add: route_eval rx_eval)
  have T: "test (r tss) p \<longleftrightarrow> p \<in> lang (\<not> cs) (Seq Eps (if tss then rx_slash else Opt rx_slash))" for tss
    by (rule test_lang) (simp_all add: r_def)
  have "test (r False) p \<longleftrightarrow> p = [] \<or> p = ''/''"
    unfolding T by (simp only: if_False lang.simps(1,6) lang_opt lang_slash) (auto simp: conc_def)
  moreover have "test (r True) p \<longleftrightarrow> p = ''/''"
    unfolding T by (simp only: if_True lang.simps(1,6) lang_slash) (auto simp: conc_def)
  ultimately show ?thesis
    by (simp add: test_path_def R)
qed

text \<open>
  C5.  For a route \<open>_generateRegex\<close> built (\<open>Route\<close> returns that route) and a path its
  pattern matches, if one of the captures is a string that \<open>decodeURIComponent\<close> rejects,
  \<open>match\<close> returns \<open>false\<close>: the error is caught, and \<open>match\<close> has a result for every request.
\<close>

theorem undecodable_capture_no_match:
  assumes "generateRegex settings t = Inr r"
    and "exec (regexp r) (req_path req) = Some m"
    and "0 < i" and "i < length m"
    and "m ! i = Some s"
    and "decodeURIComponent s = Inl e"
  shows "fst (match r req) = False"
proof -
  have "m ! i \<in> set (tl m)"
    using assms(3,4) by (cases m) (auto simp: gr0_conv_Suc)
  moreover have "decode_capture (m ! i) = Inl e"
    using assms(5,6) by (simp add: decode_capture_def)
  ultimately have "\<exists>v \<in> set (tl m). \<exists>e. decode_capture v = Inl e" by blast
  from match_loop_fails[OF match_generated(3)[OF assms(1,2)] _ this]
  show ?thesis unfolding match_generated(2)[OF assms(1,2)] by simp
qed

theorem undecodable_capture_no_match_witness:
  "generateRegex sensitive ''/user/{id}'' = Inr (projr (generateRegex sensitive ''/user/{id}''))
   \<and> exec (regexp (projr (generateRegex sensitive ''/user/{id}'')))
         (req_path (new_request ''/user/%E0%A4%A''))
       = Some [Some ''/user/%E0%A4%A'', Some ''%E0%A4%A'']
   \<and> [Some ''/user/%E0%A4%A'', Some ''%E0%A4%A''] ! 1 = Some ''%E0%A4%A''
   \<and> decodeURIComponent ''%E0%A4%A'' = Inl URIError
   \<and> fst (match (projr (generateRegex sensitive ''/user/{id}'')) (new_request ''/user/%E0%A4%A'')) = False"
proof -
  have 1: "generateRegex sensitive ''/user/{id}'' = Inr (projr (generateRegex sensitive ''/user/{id}''))"
    by (simp add: route_eval rx_eval)
  have 2: "exec (regexp (projr (generateRegex sensitive ''/user/{id}'')))
         (req_path (new_request ''/user/%E0%A4%A''))
       = Some [Some ''/user/%E0%A4%A'', Some ''%E0%A4%A'']"
    by (simp add: route_eval rx_eval new_request_def)
  have 3: "(0::nat) < 1" "1 < length [Some ''/user/%E0%A4%A'', Some ''%E0%A4%A'']" by simp_all
  have 4: "[Some ''/user/%E0%A4%A'', Some ''%E0%A4%A''] ! 1 = Some ''%E0%A4%A''" by simp
  have 5: "decodeURIComponent ''%E0%A4%A'' = Inl URIError"
    by (simp add: decode_eval)
  from undecodable_capture_no_match[OF 1 2 3 4 5] 1 2 4 5 show ?thesis by blast
qed

text \<open>
  C9 as the spec states it: after a successful match every parameter name maps to a decoded
  string.  The optional parameter of \<open>/user/{id?}\<close> is omitted in \<open>/user\<close>; its capture is
  not a string, and the name maps to \<open>undefined\<close>.
\<close>

theorem omitted_parameter_is_undefined:
  "match_path relaxed ''/user/{id?}'' ''/user'' =
     Inr (True, \<lparr>req_path = ''/user'', req_params = [(''id'', Undefined)],
                 paramsArray = [Undefined]\<rparr>)"
  by (simp add: request_eval route_eval rx_eval decode_eval)

text \<open>
  C9, amended.  After a successful match on a route \<open>_generateRegex\<close> built, the parameters of
  the request are the names of the route, in the order of the route's list, each with the
  value of the capture at its position: the decoded string of a capture that is a string,
  \<open>undefined\<close> for a capture that did not take part in the match.  The positional values are
  the same values in the same order.
\<close>

theorem match_result_values:
  assumes "generateRegex settings t = Inr r"
    and "match r req = (True, req')"
  shows "\<exists>m ds. exec (regexp r) (req_path req) = Some m
           \<and> map decode_capture (tl m) = map Inr ds
           \<and> length ds = length (params r)
           \<and> req_params req' = zip (params r) ds
           \<and> paramsArray req' = ds"
proof -
  from assms(2) obtain m where m: "exec (regexp r) (req_path req) = Some m"
    by (cases "exec (regexp r) (req_path req)") (auto simp: match_def)
  note g = match_generated[OF assms(1) m]
  let ?req0 = "req\<lparr>req_params := [], paramsArray := []\<rparr>"
  have "match_loop (params r) 1 (tl m) ?req0 = (True, req')"
    using assms(2) g(2) by simp
  from match_loop_succeeds[OF g(3) _ this] obtain ds where ds:
    "map decode_capture (tl m) = map Inr ds"
    "paramsArray req' = paramsArray ?req0 @ ds"
    "req_params req' = foldl (\<lambda>ob (k, d). obj_set k d ob) (req_params ?req0)
                                (zip (take (length (tl m)) (drop (1 - 1) (params r))) ds)"
    by auto
  have len: "length ds = length (params r)"
    using arg_cong[OF ds(1), of length] g(1) by simp
  have "take (length (tl m)) (drop (1 - 1) (params r)) = params r"
    using g(1) by simp
  with ds(3) have "req_params req' = foldl (\<lambda>ob (k, d). obj_set k d ob) [] (zip (params r) ds)"
    by simp
  also have "\<dots> = [] @ zip (params r) ds"
    by (rule foldl_obj_set_new) (simp_all add: route_params(2)[OF assms(1)] len)
  finally have "req_params req' = zip (params r) ds" by simp
  with m ds(1,2) len show ?thesis by auto
qed

theorem match_result_values_witness:
  "generateRegex relaxed ''/a/{b}/{c?}'' = Inr (projr (generateRegex relaxed ''/a/{b}/{c?}''))
   \<and> match (projr (generateRegex relaxed ''/a/{b}/{c?}'')) (new_request ''/a/x%20y'')
       = (True, \<lparr>req_path = ''/a/x%20y'',
                 req_params = [(''b'', String [120, 32, 121]), (''c'', Undefined)],
                 paramsArray = [String [120, 32, 121], Undefined]\<rparr>)
   \<and> (\<exists>m ds. exec (regexp (projr (generateRegex relaxed ''/a/{b}/{c?}'')))
                  (req_path (new_request ''/a/x%20y'')) = Some m
           \<and> map decode_capture (tl m) = map Inr ds
           \<and> length ds = length (params (projr (generateRegex relaxed ''/a/{b}/{c?}'')))
           \<and> req_params \<lparr>req_path = ''/a/x%20y'',
                 req_params = [(''b'', String [120, 32, 121]), (''c'', Undefined)],
                 paramsArray = [String [120, 32, 121], Undefined]\<rparr>
               = zip (params (projr (generateRegex relaxed ''/a/{b}/{c?}''))) ds
           \<and> paramsArray \<lparr>req_path = ''/a/x%20y'',
                 req_params = [(''b'', String [120, 32, 121]), (''c'', Undefined)],
                 paramsArray = [String [120, 32, 121], Undefined]\<rparr> = ds)"
proof -
  have 1: "generateRegex relaxed ''/a/{b}/{c?}'' = Inr (projr (generateRegex relaxed ''/a/{b}/{c?}''))"
    by (simp add: route_eval rx_eval)
  have 2: "match (projr (generateRegex relaxed ''/a/{b}/{c?}'')) (new_request ''/a/x%20y'')
       = (True, \<lparr>req_path = ''/a/x%20y'',
                 req_params = [(''b'', String [120, 32, 121]), (''c'', Undefined)],
                 paramsArray = [String [120, 32, 121], Undefined]\<rparr>)"
    by (simp add: request_eval route_eval rx_eval decode_eval)
  from match_result_values[OF 1 2] 1 2 show ?thesis by blast
qed

text \<open>
  C8.  \<open>test\<close> is the first step of \<open>match\<close>: it holds exactly when the pattern matches the
  path.  When it fails, \<open>match\<close> returns \<open>false\<close> and leaves the request as it was; when it
  holds, \<open>match\<close> goes on to the loop over the captures, which \<open>test\<close> never enters.  So a
  successful \<open>match\<close> implies \<open>test\<close> on the same path.
\<close>

theorem test_is_first_step_of_match:
  assumes "generateRegex settings t = Inr r"
  shows "(test r (req_path req) \<longleftrightarrow> exec (regexp r) (req_path req) \<noteq> None)
       \<and> (\<not> test r (req_path req) \<longrightarrow> match r req = (False, req))
       \<and> (test r (req_path req) \<longrightarrow>
            (\<exists>m. exec (regexp r) (req_path req) = Some m \<and>
                 match r req = match_loop (params r) 1 (tl m)
                                 (req\<lparr>req_params := [], paramsArray := []\<rparr>)))
       \<and> (fst (match r req) \<longrightarrow> test r (req_path req))"
proof (cases "exec (regexp r) (req_path req)")
  case None
  then show ?thesis by (simp add: test_def match_def)
next
  case (Some m)
  from match_generated(2)[OF assms Some] Some show ?thesis
    by (simp add: test_def)
qed

theorem test_is_first_step_of_match_witness:
  "generateRegex sensitive ''/user/{id}'' = Inr (projr (generateRegex sensitive ''/user/{id}''))
   \<and> test (projr (generateRegex sensitive ''/user/{id}'')) (req_path (new_request ''/user/42''))
   \<and> fst (match (projr (generateRegex sensitive ''/user/{id}'')) (new_request ''/user/42''))
   \<and> \<not> test (projr (generateRegex sensitive ''/user/{id}'')) (req_path (new_request ''/user''))
   \<and> match (projr (generateRegex sensitive ''/user/{id}'')) (new_request ''/user'')
        = (False, new_request ''/user'')"
proof -
  have 1: "generateRegex sensitive ''/user/{id}'' = Inr (projr (generateRegex sensitive ''/user/{id}''))"
    by (simp add: route_eval rx_eval)
  have 2: "fst (match (projr (generateRegex sensitive ''/user/{id}'')) (new_request ''/user/42''))"
    by (simp add: request_eval route_eval rx_eval decode_eval)
  have 3: "\<not> test (projr (generateRegex sensitive ''/user/{id}'')) (req_path (new_request ''/user''))"
    by (simp add: request_eval route_eval rx_eval)
  from test_is_first_step_of_match[OF 1, of "new_request ''/user/42''"]
    test_is_first_step_of_match[OF 1, of "new_request ''/user''"] 1 2 3
  show ?thesis by blast
qed

text \<open>
  C6 as the spec states it: two templates that differ in a literal segment have different
  fingerprints.  Under a configuration that is not case-sensitive the fingerprint is
  lower-cased, and \<open>/User/{id}\<close> and \<open>/user/{id}\<close> have the same one.
\<close>

theorem caseless_fingerprints_coincide:
  "fingerprint_of caseless ''/User/{id}'' = Inr ''/user/?''
   \<and> fingerprint_of caseless ''/user/{id}'' = Inr ''/user/?''"
  by (simp add: request_eval route_eval rx_eval)

text \<open>
  C6, amended.  For two templates compiled under the same configuration (by
  \<open>_generateRegex\<close>, whose result \<open>Route\<close> returns): when the segment shapes are the same,
  the parameter names aside, the fingerprints are equal; and when the shapes are the same
  up to the text of the literal segments, the fingerprints are equal exactly when the
  literal texts are equal after the case folding of the configuration.  Under a
  case-sensitive configuration a different literal gives a different fingerprint; under a
  case-insensitive one it does unless the literals differ only in letter case.
\<close>

theorem fingerprint_of_shapes:
  assumes "generateRegex settings t1 = Inr r1"
    and "generateRegex settings t2 = Inr r2"
  shows "(template_shape t1 = template_shape t2 \<longrightarrow> fingerprint r1 = fingerprint r2)
       \<and> (map erase_text (template_shape t1) = map erase_text (template_shape t2) \<longrightarrow>
            (fingerprint r1 = fingerprint r2 \<longleftrightarrow>
               map (case_fold settings) (literal_texts (template_shape t1))
                 = map (case_fold settings) (literal_texts (template_shape t2))))"
proof -
  have f: "fingerprint r = concat (map (\<lambda>x. case_fold settings (shape_fingerprint x)) (template_shape t))"
    if "generateRegex settings t = Inr r" for r t
    using fingerprint_shape[OF that] by (simp add: case_fold_concat comp_def)
  have sf: "\<forall>s \<in> set (literal_texts (template_shape t)). CHR ''/'' \<notin> set s" for t
    using literal_texts_slash_free by blast
  show ?thesis
    unfolding f[OF assms(1)] f[OF assms(2)]
    using fingerprints_of_same_parameters[OF _ sf sf, of t1 t2 settings] by auto
qed

theorem fingerprint_of_shapes_witness:
  "generateRegex sensitive ''/user/{id}'' = Inr (projr (generateRegex sensitive ''/user/{id}''))
   \<and> generateRegex sensitive ''/user/{name}'' = Inr (projr (generateRegex sensitive ''/user/{name}''))
   \<and> generateRegex sensitive ''/account/{id}'' = Inr (projr (generateRegex sensitive ''/account/{id}''))
   \<and> template_shape ''/user/{id}'' = template_shape ''/user/{name}''
   \<and> fingerprint (projr (generateRegex sensitive ''/user/{id}''))
       = fingerprint (projr (generateRegex sensitive ''/user/{name}''))
   \<and> map erase_text (template_shape ''/user/{id}'') = map erase_text (template_shape ''/account/{id}'')
   \<and> fingerprint (projr (generateRegex sensitive ''/user/{id}''))
       \<noteq> fingerprint (projr (generateRegex sensitive ''/account/{id}''))"
proof -
  have 1: "generateRegex sensitive ''/user/{id}'' = Inr (projr (generateRegex sensitive ''/user/{id}''))"
    by (simp add: route_eval rx_eval)
  have 2: "generateRegex sensitive ''/user/{name}'' = Inr (projr (generateRegex sensitive ''/user/{name}''))"
    by (simp add: route_eval rx_eval)
  have 3: "generateRegex sensitive ''/account/{id}'' = Inr (projr (generateRegex sensitive ''/account/{id}''))"
    by (simp add: route_eval rx_eval)
  have s1: "template_shape ''/user/{id}'' = [(Literal ''user'', False), (Single, False)]"
    by (simp add: template_shape_def segment_shape_def route_eval rx_eval)
  have s2: "template_shape ''/user/{name}'' = [(Literal ''user'', False), (Single, False)]"
    by (simp add: template_shape_def segment_shape_def route_eval rx_eval)
  have s3: "template_shape ''/account/{id}'' = [(Literal ''account'', False), (Single, False)]"
    by (simp add: template_shape_def segment_shape_def route_eval rx_eval)
  have 4: "template_shape ''/user/{id}'' = template_shape ''/user/{name}''"
    by (simp only: s1 s2)
  have 5: "map erase_text (template_shape ''/user/{id}'') = map erase_text (template_shape ''/account/{id}'')"
    by (simp add: s1 s3)
  have 6: "map (case_fold sensitive) (literal_texts (template_shape ''/user/{id}''))
           \<noteq> map (case_fold sensitive) (literal_texts (template_shape ''/account/{id}''))"
    by (simp add: s1 s3 case_fold_def)
  from fingerprint_of_shapes[OF 1 2] fingerprint_of_shapes[OF 1 3] 1 2 3 4 5 6
  show ?thesis by blast
qed

text \<open>
  C7.  Take a template that ends in a parameter \<open>{name*N}\<close>, \<open>N\<close> written without a leading
  zero, and the template without that last segment; \<open>_generateRegex\<close> builds the routes
  \<open>r\<close> and \<open>r0\<close> (\<open>Route\<close> returns the route \<open>_generateRegex\<close> builds).  The number \<open>N\<close> read
  from the token is positive.  The route accepts exactly the paths that continue a path of
  the shorter route by the separator and \<open>N\<close> runs joined by single slashes, and the last
  capture of a match is these runs with their slashes.  The fragment itself, applied on its
  own to a whole string, matches exactly the separator followed by \<open>N\<close> joined runs and
  captures what follows the separator.  The route \<open>/a/{p*2}\<close> matches \<open>/a/x/y\<close> with
  \<open>p = x/y\<close> and matches neither \<open>/a/x\<close> nor \<open>/a/x/y/z\<close>.
\<close>

theorem fixed_count_parameter:
  assumes "is_name name" and "is_count c"
    and "generateRegex settings t0 = Inr r0"
    and "generateRegex settings (t0 @ ''/{'' @ name @ ''*'' @ c @ ''}'') = Inr r"
  shows "0 < decimal c
   \<and> (test r p \<longleftrightarrow>
        (\<exists>p0 runs. p = p0 @ CHR ''/'' # join_runs runs \<and> test r0 p0 \<and>
            length runs = decimal c \<and> list_all is_run runs))
   \<and> (\<forall>m. exec (regexp r) p = Some m \<longrightarrow>
        (\<exists>p0 runs. p = p0 @ CHR ''/'' # join_runs runs \<and> test r0 p0 \<and>
            length runs = decimal c \<and> list_all is_run runs \<and>
            hd m = Some p \<and> last m = Some (join_runs runs)))
   \<and> fragment_exec ic (segmentRX True (Some (decimal c))) s =
        (if (\<exists>runs. length runs = decimal c \<and> list_all is_run runs \<and> s = CHR ''/'' # join_runs runs)
         then Some [Some s, Some (tl s)] else None)
   \<and> match_path sensitive ''/a/{p*2}'' ''/a/x/y'' =
       Inr (True, \<lparr>req_path = ''/a/x/y'',
                   req_params = [(''p'', String (map of_char ''x/y''))],
                   paramsArray = [String (map of_char ''x/y'')]\<rparr>)
   \<and> test_path sensitive ''/a/{p*2}'' ''/a/x'' = Inr False
   \<and> test_path sensitive ''/a/{p*2}'' ''/a/x/y/z'' = Inr False"
proof -
  let ?seg = "''{'' @ name @ ''*'' @ c @ ''}''"
  let ?N = "decimal c"
  have pos: "0 < ?N" by (rule decimal_count_positive[OF assms(2)])
  have nos: "CHR ''/'' \<notin> set ?seg"
    using word_chars_no_slash[of name] digits_no_slash[OF count_digits(3)[OF assms(2)]] assms(1)
    by (simp add: is_name_def)
  have t: "t0 @ ''/{'' @ name @ ''*'' @ c @ ''}'' = t0 @ CHR ''/'' # ?seg" by simp
  note r = assms(4)[unfolded t]
  have param: "exec paramRegex ?seg = Some [Some ?seg, Some name, Some ''*'', Some c, None]"
    by (rule paramRegex_count_token[OF assms(1,2)])
  note v0 = count_token_variables[OF assms(1,2) param]
  have v: "param_isMulti [Some ?seg, Some name, Some ''*'', Some c, None] = True"
    "param_multiCount [Some ?seg, Some name, Some ''*'', Some c, None] = Some ?N"
    "param_isOptional [Some ?seg, Some name, Some ''*'', Some c, None] = False"
    using v0 by simp_all
  have unit: "param_pathRX tso True (Some ?N) False = segmentRX True (Some ?N)" for tso
    using pos by (simp add: param_pathRX_def is_truthy_def)
  have words: "param_words True (Some ?N) =
        {CHR ''/'' # join_runs runs | runs. length runs = ?N \<and> list_all is_run runs}"
    using pos by (simp add: param_words_def is_truthy_def)
  have T: "test r p \<longleftrightarrow>
        (\<exists>p0 runs. p = p0 @ CHR ''/'' # join_runs runs \<and> test r0 p0 \<and>
            length runs = ?N \<and> list_all is_run runs)"
    unfolding test_snoc_param[OF nos assms(3) r param] v unit lang_segmentRX words by blast
  from snoc_param_pattern[OF nos assms(3) r param] obtain X0 where X0: "plain X0"
    "regexp r0 = \<lparr>source = Seq Bol (Seq X0 Eol), ignoreCase = (\<not> isCaseSensitive settings)\<rparr>"
    "regexp r = \<lparr>source = Seq Bol (Seq (Seq X0 (segmentRX True (Some ?N))) Eol),
          ignoreCase = (\<not> isCaseSensitive settings)\<rparr>"
    unfolding v unit by blast
  have E: "\<exists>p0 runs. p = p0 @ CHR ''/'' # join_runs runs \<and> test r0 p0 \<and>
            length runs = ?N \<and> list_all is_run runs \<and>
            hd m = Some p \<and> last m = Some (join_runs runs)"
    if "exec (regexp r) p = Some m" for m
  proof -
    from exec_last_segment[OF X0(1) that[unfolded X0(3)]] obtain p0 u where
      u: "p = p0 @ u" "p0 \<in> lang (\<not> isCaseSensitive settings) X0" "u \<in> param_words True (Some ?N)"
      "hd m = Some p" "last m = Some (tl u)" by blast
    from u(3) obtain runs where runs: "u = CHR ''/'' # join_runs runs" "length runs = ?N" "list_all is_run runs"
      unfolding words by blast
    have "test r0 p0" using test_lang[OF X0(2,1)] u(2) by simp
    with u runs show ?thesis by auto
  qed
  have F: "fragment_exec ic (segmentRX True (Some ?N)) s =
        (if (\<exists>runs. length runs = ?N \<and> list_all is_run runs \<and> s = CHR ''/'' # join_runs runs)
         then Some [Some s, Some (tl s)] else None)"
    unfolding fragment_exec_segmentRX words by auto
  have X: "match_path sensitive ''/a/{p*2}'' ''/a/x/y'' =
       Inr (True, \<lparr>req_path = ''/a/x/y'',
                   req_params = [(''p'', String (map of_char ''x/y''))],
                   paramsArray = [String (map of_char ''x/y'')]\<rparr>)"
    "test_path sensitive ''/a/{p*2}'' ''/a/x'' = Inr False"
    "test_path sensitive ''/a/{p*2}'' ''/a/x/y/z'' = Inr False"
    by (simp_all add: request_eval route_eval rx_eval decode_eval)
  from pos T E F X show ?thesis by blast
qed

theorem fixed_count_parameter_witness:
  "is_name ''p'' \<and> is_count ''2''
   \<and> generateRegex sensitive ''/a'' = Inr (projr (generateRegex sensitive ''/a''))
   \<and> generateRegex sensitive (''/a'' @ ''/{'' @ ''p'' @ ''*'' @ ''2'' @ ''}'')
       = Inr (projr (generateRegex sensitive ''/a/{p*2}''))
   \<and> decimal ''2'' = 2
   \<and> test (projr (generateRegex sensitive ''/a'')) ''/a''
   \<and> test (projr (generateRegex sensitive ''/a/{p*2}'')) ''/a/x/y''
   \<and> exec (regexp (projr (generateRegex sensitive ''/a/{p*2}''))) ''/a/x/y''
       = Some [Some ''/a/x/y'', Some ''x/y'']
   \<and> (\<exists>p0 runs. ''/a/x/y'' = p0 @ CHR ''/'' # join_runs runs
         \<and> test (projr (generateRegex sensitive ''/a'')) p0
         \<and> length runs = decimal ''2'' \<and> list_all is_run runs
         \<and> hd [Some ''/a/x/y'', Some ''x/y''] = Some ''/a/x/y''
         \<and> last [Some ''/a/x/y'', Some ''x/y''] = Some (join_runs runs))"
proof -
  have 1: "is_name ''p''"
    by (simp add: is_name_def class_member_def word_class_def in_range_def)
  have 2: "is_count ''2''"
    by (simp add: is_count_def is_digit_def in_range_def)
  have 3: "generateRegex sensitive ''/a'' = Inr (projr (generateRegex sensitive ''/a''))"
    by (simp add: route_eval rx_eval)
  have 4: "generateRegex sensitive (''/a'' @ ''/{'' @ ''p'' @ ''*'' @ ''2'' @ ''}'')
       = Inr (projr (generateRegex sensitive ''/a/{p*2}''))"
    by (simp add: route_eval rx_eval)
  have 5: "decimal ''2'' = 2" by (simp add: decimal_def digit_val_def)
  have 6: "test (projr (generateRegex sensitive ''/a'')) ''/a''"
    by (simp add: test_def route_eval rx_eval)
  have 7: "exec (regexp (projr (generateRegex sensitive ''/a/{p*2}''))) ''/a/x/y''
       = Some [Some ''/a/x/y'', Some ''x/y'']"
    by (simp add: route_eval rx_eval)
  note th = fixed_count_parameter[OF 1 2 3 4, of "''/a/x/y''"]
  from th 7 have 8: "\<exists>p0 runs. ''/a/x/y'' = p0 @ CHR ''/'' # join_runs runs
         \<and> test (projr (generateRegex sensitive ''/a'')) p0
         \<and> length runs = decimal ''2'' \<and> list_all is_run runs
         \<and> hd [Some ''/a/x/y'', Some ''x/y''] = Some ''/a/x/y''
         \<and> last [Some ''/a/x/y'', Some ''x/y''] = Some (join_runs runs)"
    by blast
  have 9: "test (projr (generateRegex sensitive ''/a/{p*2}'')) ''/a/x/y''"
    using 7 by (simp add: test_def)
  from 1 2 3 4 5 6 7 8 9 show ?thesis by blast
qed

end
